theory Spec2Isabelle
  imports Main "HOL-Library.AList"
begin

section \<open>JavaScript values seen by the cache\<close>

text \<open>
  The cache of \<^verbatim>\<open>src/index.js\<close> receives arbitrary JavaScript values as keys, values,
  durations and flags. Numbers are the three non-finite doubles and the finite ones, taken
  at integer values (whole milliseconds, integer keys). \<open>JObj n\<close> is a plain object with
  identity \<open>n\<close>, whose string form is \<^verbatim>\<open>[object Object]\<close>.
\<close>

datatype jsnum = NaN | PosInf | NegInf | Fin int

datatype jsval = JUndefined | JNull | JBool bool | JNum jsnum | JStr string | JObj nat

datatype jstype = TUndefined | TObject | TBoolean | TNumber | TString

fun typeof :: "jsval \<Rightarrow> jstype" where
  "typeof JUndefined = TUndefined"
| "typeof JNull = TObject"
| "typeof (JBool b) = TBoolean"
| "typeof (JNum n) = TNumber"
| "typeof (JStr s) = TString"
| "typeof (JObj n) = TObject"

fun isNaN :: "jsnum \<Rightarrow> bool" where
  "isNaN NaN = True"
| "isNaN n = False"

text \<open>The comparison \<^verbatim>\<open>n <= 0\<close> on a number: false for NaN.\<close>

fun le_zero :: "jsnum \<Rightarrow> bool" where
  "le_zero NaN = False"
| "le_zero PosInf = False"
| "le_zero NegInf = True"
| "le_zero (Fin i) = (i \<le> 0)"

subsection \<open>Property keys\<close>

text \<open>
  \<^verbatim>\<open>_cache[key]\<close> converts the key to a string. \<open>string_of_nat\<close> writes the decimal
  digits of a natural number. For a finite number, \<open>string_of_num\<close> is the string form that
  JavaScript gives to the integers of magnitude at most \<open>2^53\<close>: each of them is a double and
  is written as its plain decimal numeral. Beyond that range not every integer is a number
  and the string form has rounded digits or an exponent, so what is proved about the
  coercion of keys is stated for keys within the range (\<open>key_in_range\<close> below).
\<close>

fun string_of_nat :: "nat \<Rightarrow> string" where
  "string_of_nat n =
     (if n < 10 then [char_of (48 + n)]
      else string_of_nat (n div 10) @ [char_of (48 + n mod 10)])"

declare string_of_nat.simps [simp del]

fun string_of_num :: "jsnum \<Rightarrow> string" where
  "string_of_num NaN = ''NaN''"
| "string_of_num PosInf = ''Infinity''"
| "string_of_num NegInf = ''-Infinity''"
| "string_of_num (Fin i) =
     (if i < 0 then CHR ''-'' # string_of_nat (nat (- i)) else string_of_nat (nat i))"

fun to_key :: "jsval \<Rightarrow> string" where
  "to_key JUndefined = ''undefined''"
| "to_key JNull = ''null''"
| "to_key (JBool b) = (if b then ''true'' else ''false'')"
| "to_key (JNum n) = string_of_num n"
| "to_key (JStr s) = s"
| "to_key (JObj n) = ''[object Object]''"

text \<open>
  \<^verbatim>\<open>Object.keys\<close> lists the keys that are array indices (the canonical decimal strings
  of the integers below \<open>2^32 - 1\<close>) first, in ascending numeric order, and then the other
  string keys in the order in which the properties were created.
\<close>

definition is_digit :: "char \<Rightarrow> bool" where
  "is_digit c = (48 \<le> (of_char c :: nat) \<and> (of_char c :: nat) \<le> 57)"

definition index_value :: "string \<Rightarrow> nat" where
  "index_value s = foldl (\<lambda>n c. 10 * n + (of_char c - 48)) 0 s"

definition is_array_index :: "string \<Rightarrow> bool" where
  "is_array_index s =
     (s \<noteq> [] \<and> list_all is_digit s \<and> (hd s \<noteq> CHR ''0'' \<or> s = ''0'')
      \<and> index_value s < 4294967295)"

definition object_keys :: "(string \<times> 'a) list \<Rightarrow> string list" where
  "object_keys al =
     sort_key index_value (filter is_array_index (map fst al))
       @ filter (\<lambda>k. \<not> is_array_index k) (map fst al)"

section \<open>The state of a cache and of the timers it owns\<close>

text \<open>
  A cache item: \<^verbatim>\<open>{value, duration, expirationTimeout, refreshInterval}\<close>. A property
  that was never assigned reads \<^verbatim>\<open>undefined\<close>: \<open>JUndefined\<close> for the duration, \<open>None\<close>
  for a timer handle.
\<close>

record entry =
  rec_value :: jsval
  rec_duration :: jsval
  rec_expirationTimeout :: "nat option"
  rec_refreshInterval :: "nat option"

text \<open>
  The two closures handed to \<^verbatim>\<open>setTimeout\<close> and \<^verbatim>\<open>setInterval\<close>; each captures the
  key argument of the call that created it.
\<close>

datatype callback = ExpiryCb jsval | RefreshCb jsval

text \<open>
  A scheduled timer: its callback, the delay it was given, the clock reading at which it
  was scheduled, and whether it repeats.
\<close>

record timer =
  t_cb :: callback
  t_delay :: jsval
  t_since :: nat
  t_repeat :: bool

record event =
  eventName :: string
  ev_key :: jsval
  ev_value :: jsval

text \<open>
  \<open>cache\<close> is \<^verbatim>\<open>_cache\<close> with its properties in creation order, \<open>resetOnAccess\<close> is
  \<^verbatim>\<open>_resetExpiryOnAccess\<close>. \<open>timers\<close>, \<open>nextTimerId\<close> and \<open>now\<close> are the runtime's table
  of pending timers, its next handle and its clock in milliseconds; \<open>emitted\<close> records the
  calls of \<^verbatim>\<open>emit\<close>, as the stub of \<^verbatim>\<open>test/index.spec.js\<close> does.
\<close>

record state =
  cache :: "(string \<times> entry) list"
  resetOnAccess :: bool
  timers :: "(nat \<times> timer) list"
  nextTimerId :: nat
  now :: nat
  emitted :: "event list"

datatype error = Error string | TypeError

definition init :: state where
  "init = \<lparr>cache = [], resetOnAccess = False, timers = [], nextTimerId = 0, now = 0,
           emitted = []\<rparr>"

definition empty_record :: entry where
  "empty_record = \<lparr>rec_value = JUndefined, rec_duration = JUndefined,
                   rec_expirationTimeout = None, rec_refreshInterval = None\<rparr>"

subsection \<open>Timer primitives and emit\<close>

definition setTimeout :: "state \<Rightarrow> callback \<Rightarrow> jsval \<Rightarrow> nat \<times> state" where
  "setTimeout s cb d =
     (nextTimerId s,
      s\<lparr>timers := timers s @ [(nextTimerId s,
                               \<lparr>t_cb = cb, t_delay = d, t_since = now s, t_repeat = False\<rparr>)],
        nextTimerId := Suc (nextTimerId s)\<rparr>)"

definition setInterval :: "state \<Rightarrow> callback \<Rightarrow> jsval \<Rightarrow> nat \<times> state" where
  "setInterval s cb d =
     (nextTimerId s,
      s\<lparr>timers := timers s @ [(nextTimerId s,
                               \<lparr>t_cb = cb, t_delay = d, t_since = now s, t_repeat = True\<rparr>)],
        nextTimerId := Suc (nextTimerId s)\<rparr>)"

text \<open>Clearing \<^verbatim>\<open>undefined\<close> or a handle that is no longer pending does nothing.\<close>

definition clearTimeout :: "state \<Rightarrow> nat option \<Rightarrow> state" where
  "clearTimeout s h =
     (case h of None \<Rightarrow> s | Some i \<Rightarrow> s\<lparr>timers := AList.delete i (timers s)\<rparr>)"

definition clearInterval :: "state \<Rightarrow> nat option \<Rightarrow> state" where
  "clearInterval s h =
     (case h of None \<Rightarrow> s | Some i \<Rightarrow> s\<lparr>timers := AList.delete i (timers s)\<rparr>)"

definition emit :: "state \<Rightarrow> string \<Rightarrow> jsval \<Rightarrow> jsval \<Rightarrow> state" where
  "emit s name key v =
     s\<lparr>emitted := emitted s @ [\<lparr>eventName = name, ev_key = key, ev_value = v\<rparr>]\<rparr>"

section \<open>The methods of RefreshableCache\<close>

definition get :: "state \<Rightarrow> jsval \<Rightarrow> jsval \<times> state" where
  "get s key =
     (case map_of (cache s) (to_key key) of
        None \<Rightarrow> (JNull, s)
      | Some record \<Rightarrow>
          if typeof (rec_duration record) \<noteq> TUndefined \<and> resetOnAccess s then
            (let s1 = clearTimeout s (rec_expirationTimeout record);
                 (h, s2) = setTimeout s1 (ExpiryCb key) (rec_duration record)
             in (rec_value record,
                 s2\<lparr>cache := AList.update (to_key key)
                               (record\<lparr>rec_expirationTimeout := Some h\<rparr>) (cache s2)\<rparr>))
          else (rec_value record, s))"

definition del :: "state \<Rightarrow> jsval \<Rightarrow> bool \<times> state" where
  "del s key =
     (case map_of (cache s) (to_key key) of
        None \<Rightarrow> (False, s)
      | Some oldRecord \<Rightarrow>
          (let s1 = clearTimeout s (rec_expirationTimeout oldRecord);
               s2 = clearInterval s1 (rec_refreshInterval oldRecord)
           in (True, s2\<lparr>cache := AList.delete (to_key key) (cache s2)\<rparr>)))"

text \<open>The test that makes \<^verbatim>\<open>put\<close> throw for a duration or a refresh interval.\<close>

definition not_positive_number :: "jsval \<Rightarrow> bool" where
  "not_positive_number d =
     (typeof d \<noteq> TUndefined \<and>
      (typeof d \<noteq> TNumber \<or> (case d of JNum n \<Rightarrow> isNaN n \<or> le_zero n | _ \<Rightarrow> False)))"

definition put :: "state \<Rightarrow> jsval \<Rightarrow> jsval \<Rightarrow> jsval \<Rightarrow> jsval \<Rightarrow> error + (jsval \<times> state)" where
  "put s key v duration refreshInterval =
     (if not_positive_number duration then
        Inl (Error ''Expiration time must be a positive number'')
      else if not_positive_number refreshInterval then
        Inl (Error ''Refresh time must be a positive number'')
      else
        (let oldRecord = map_of (cache s) (to_key key);
             newRecord = (case oldRecord of None \<Rightarrow> empty_record | Some r \<Rightarrow> r)
                           \<lparr>rec_value := v\<rparr>;
             (newRecord, s) =
               (if typeof duration \<noteq> TUndefined then
                  (let s1 = (case oldRecord of None \<Rightarrow> s
                             | Some r \<Rightarrow> clearTimeout s (rec_expirationTimeout r));
                       (h, s2) = setTimeout s1 (ExpiryCb key) duration
                   in (newRecord\<lparr>rec_duration := duration,
                                 rec_expirationTimeout := Some h\<rparr>, s2))
                else (newRecord, s));
             (newRecord, s) =
               (if typeof refreshInterval \<noteq> TUndefined then
                  (let s1 = (case oldRecord of None \<Rightarrow> s
                             | Some r \<Rightarrow> clearInterval s (rec_refreshInterval r));
                       (h, s2) = setInterval s1 (RefreshCb key) refreshInterval
                   in (newRecord\<lparr>rec_refreshInterval := Some h\<rparr>, s2))
                else (newRecord, s))
         in Inr (v, s\<lparr>cache := AList.update (to_key key) newRecord (cache s)\<rparr>)))"

definition keys :: "state \<Rightarrow> string list" where
  "keys s = object_keys (cache s)"

definition size_of :: "state \<Rightarrow> nat" where
  "size_of s = length (object_keys (cache s))"

text \<open>
  \<^verbatim>\<open>clear\<close> walks over \<^verbatim>\<open>this.keys()\<close>; every key it visits is a property of the cache,
  which the loop does not change.
\<close>

definition clear_one :: "state \<Rightarrow> string \<Rightarrow> state" where
  "clear_one s key =
     (case map_of (cache s) key of
        None \<Rightarrow> s
      | Some oldRecord \<Rightarrow>
          clearInterval (clearTimeout s (rec_expirationTimeout oldRecord))
            (rec_refreshInterval oldRecord))"

definition clear :: "state \<Rightarrow> state" where
  "clear s = (foldl clear_one s (keys s))\<lparr>cache := []\<rparr>"

definition resetExpiryOnAccess :: "state \<Rightarrow> jsval \<Rightarrow> error + state" where
  "resetExpiryOnAccess s shouldResetExpiry =
     (if typeof shouldResetExpiry \<noteq> TUndefined \<and> typeof shouldResetExpiry \<noteq> TBoolean then
        Inl (Error ''Reset expiry on get flag must be a boolean'')
      else
        Inr (s\<lparr>resetOnAccess :=
                 (case shouldResetExpiry of JBool b \<Rightarrow> b | _ \<Rightarrow> True)\<rparr>))"

subsection \<open>Timer callbacks\<close>

text \<open>
  The closures created by \<^verbatim>\<open>put\<close> and \<^verbatim>\<open>get\<close>. Reading \<^verbatim>\<open>_cache[key].value\<close> for a
  key that is not in the cache throws a TypeError before anything is emitted.
\<close>

definition run_callback :: "state \<Rightarrow> callback \<Rightarrow> error + state" where
  "run_callback s cb =
     (case cb of
        ExpiryCb key \<Rightarrow>
          (case map_of (cache s) (to_key key) of
             None \<Rightarrow> Inl TypeError
           | Some r \<Rightarrow> Inr (snd (del (emit s ''expiry'' key (rec_value r)) key)))
      | RefreshCb key \<Rightarrow>
          (case map_of (cache s) (to_key key) of
             None \<Rightarrow> Inl TypeError
           | Some r \<Rightarrow> Inr (emit s ''refresh'' key (rec_value r))))"

text \<open>
  The runtime fires a pending timer: a timeout leaves the table before its callback runs,
  an interval stays. Firing a handle that is not pending does nothing.
\<close>

definition fire :: "state \<Rightarrow> nat \<Rightarrow> error + state" where
  "fire s i =
     (case map_of (timers s) i of
        None \<Rightarrow> Inr s
      | Some t \<Rightarrow>
          run_callback (if t_repeat t then s else s\<lparr>timers := AList.delete i (timers s)\<rparr>)
            (t_cb t))"

section \<open>Histories\<close>

text \<open>
  What can happen to a cache: a method call, the passing of time, or the firing of a
  pending timer, in any order; the runtime may fire any pending timer, so what is proved
  for all histories holds for every schedule of the timers. An exception of a method
  leaves the state as it was; a callback that throws has still used up its handle (no
  callback throws in a reachable state, see \<open>fire_total\<close>). The listeners of the events
  are not part of the model: \<open>emit\<close> only records the event.
\<close>

datatype op =
    Put jsval jsval jsval jsval
  | Get jsval
  | Del jsval
  | Clear
  | ResetExpiryOnAccess jsval
  | Advance nat
  | Fire nat

fun apply_op :: "state \<Rightarrow> op \<Rightarrow> state" where
  "apply_op s (Put key v d r) = (case put s key v d r of Inl e \<Rightarrow> s | Inr (x, s') \<Rightarrow> s')"
| "apply_op s (Get key) = snd (get s key)"
| "apply_op s (Del key) = snd (del s key)"
| "apply_op s Clear = clear s"
| "apply_op s (ResetExpiryOnAccess b) =
     (case resetExpiryOnAccess s b of Inl e \<Rightarrow> s | Inr s' \<Rightarrow> s')"
| "apply_op s (Advance n) = s\<lparr>now := now s + n\<rparr>"
| "apply_op s (Fire i) =
     (case fire s i of
        Inl e \<Rightarrow> s\<lparr>timers := AList.delete i (timers s)\<rparr>
      | Inr s' \<Rightarrow> s')"

definition run :: "state \<Rightarrow> op list \<Rightarrow> state" where
  "run s ops = foldl apply_op s ops"

definition reachable :: "state \<Rightarrow> bool" where
  "reachable s = (\<exists>ops. s = run init ops)"

section \<open>Timers and entries: what the claims speak about\<close>

text \<open>
  A pending timer is an expiry (refresh) timer of a key when its callback is the expiry
  (refresh) closure of a key with that string form.
\<close>

definition is_expiry_timer :: "string \<Rightarrow> timer \<Rightarrow> bool" where
  "is_expiry_timer k t =
     (case t_cb t of ExpiryCb key \<Rightarrow> to_key key = k | RefreshCb key \<Rightarrow> False)"

definition is_refresh_timer :: "string \<Rightarrow> timer \<Rightarrow> bool" where
  "is_refresh_timer k t =
     (case t_cb t of ExpiryCb key \<Rightarrow> False | RefreshCb key \<Rightarrow> to_key key = k)"

text \<open>
  The invariant. An entry's expiration handle, if it has one, is pending, carries the expiry
  callback of the entry's key, does not repeat and has the entry's duration as its delay;
  an entry without handle has no duration. An entry's refresh handle, if it has one, is
  pending, carries the refresh callback of the key and repeats.
\<close>

definition exp_ok :: "(nat \<rightharpoonup> timer) \<Rightarrow> string \<Rightarrow> entry \<Rightarrow> bool" where
  "exp_ok T k r =
     (case rec_expirationTimeout r of
        None \<Rightarrow> rec_duration r = JUndefined
      | Some h \<Rightarrow>
          (case T h of
             None \<Rightarrow> False
           | Some t \<Rightarrow> is_expiry_timer k t \<and> \<not> t_repeat t \<and> t_delay t = rec_duration r
                        \<and> rec_duration r \<noteq> JUndefined))"

definition ref_ok :: "(nat \<rightharpoonup> timer) \<Rightarrow> string \<Rightarrow> entry \<Rightarrow> bool" where
  "ref_ok T k r =
     (case rec_refreshInterval r of
        None \<Rightarrow> True
      | Some h \<Rightarrow>
          (case T h of None \<Rightarrow> False | Some t \<Rightarrow> is_refresh_timer k t \<and> t_repeat t))"

text \<open>
  Every pending timer is owned: the entry of the key in its callback exists and holds the
  timer's handle in the field that matches the callback.
\<close>

definition timer_owned :: "(string \<rightharpoonup> entry) \<Rightarrow> nat \<Rightarrow> timer \<Rightarrow> bool" where
  "timer_owned C i t =
     (case t_cb t of
        ExpiryCb key \<Rightarrow>
          \<not> t_repeat t \<and>
          (case C (to_key key) of None \<Rightarrow> False | Some r \<Rightarrow> rec_expirationTimeout r = Some i)
      | RefreshCb key \<Rightarrow>
          t_repeat t \<and>
          (case C (to_key key) of None \<Rightarrow> False | Some r \<Rightarrow> rec_refreshInterval r = Some i))"

text \<open>
  \<open>cache_inv\<close>: no key has two entries, no handle is pending twice, every pending handle is
  below the next handle to be issued and is owned, and every entry's handles are as above.
  \<open>minv\<close> is the part of it that speaks about the two tables as maps.
\<close>

definition cache_inv :: "state \<Rightarrow> bool" where
  "cache_inv s =
     (distinct (map fst (cache s)) \<and> distinct (map fst (timers s)) \<and>
      list_all (\<lambda>(i, t). i < nextTimerId s \<and> timer_owned (map_of (cache s)) i t) (timers s) \<and>
      list_all (\<lambda>(k, r). exp_ok (map_of (timers s)) k r \<and> ref_ok (map_of (timers s)) k r)
        (cache s))"

definition minv :: "(string \<rightharpoonup> entry) \<Rightarrow> (nat \<rightharpoonup> timer) \<Rightarrow> nat \<Rightarrow> bool" where
  "minv C T n =
     ((\<forall>i t. T i = Some t \<longrightarrow> i < n \<and> timer_owned C i t) \<and>
      (\<forall>k r. C k = Some r \<longrightarrow> exp_ok T k r \<and> ref_ok T k r))"

text \<open>The pending expiry (refresh) timers of a key.\<close>

definition expiry_timers :: "state \<Rightarrow> string \<Rightarrow> (nat \<times> timer) list" where
  "expiry_timers s k = filter (\<lambda>(i, t). is_expiry_timer k t) (timers s)"

definition refresh_timers :: "state \<Rightarrow> string \<Rightarrow> (nat \<times> timer) list" where
  "refresh_timers s k = filter (\<lambda>(i, t). is_refresh_timer k t) (timers s)"

text \<open>
  The events of a log whose key has the string form \<open>k\<close>, and the operations that put a
  key with that string form.
\<close>

definition events_for :: "string \<Rightarrow> event list \<Rightarrow> event list" where
  "events_for k es = filter (\<lambda>e. to_key (ev_key e) = k) es"

definition puts_key :: "string \<Rightarrow> op \<Rightarrow> bool" where
  "puts_key k op = (case op of Put key v d r \<Rightarrow> to_key key = k | _ \<Rightarrow> False)"

text \<open>
  The wording of the specification for a valid duration or refresh interval: a finite
  positive number. It is compared below with \<open>not_positive_number\<close>, the test of the code.
\<close>

definition finite_positive_number :: "jsval \<Rightarrow> bool" where
  "finite_positive_number d = (case d of JNum (Fin i) \<Rightarrow> 0 < i | _ \<Rightarrow> False)"


section \<open>Auxiliary facts\<close>

subsection \<open>The invariant as a statement about maps\<close>

lemma timer_owned_iff:
  "timer_owned C i t \<longleftrightarrow>
     (\<forall>key. t_cb t = ExpiryCb key \<longrightarrow>
         \<not> t_repeat t \<and> (\<exists>r. C (to_key key) = Some r \<and> rec_expirationTimeout r = Some i)) \<and>
     (\<forall>key. t_cb t = RefreshCb key \<longrightarrow>
         t_repeat t \<and> (\<exists>r. C (to_key key) = Some r \<and> rec_refreshInterval r = Some i))"
  by (cases "t_cb t") (auto simp: timer_owned_def split: option.splits)

lemma exp_ok_iff:
  "exp_ok T k r \<longleftrightarrow>
     (rec_expirationTimeout r = None \<longrightarrow> rec_duration r = JUndefined) \<and>
     (\<forall>h. rec_expirationTimeout r = Some h \<longrightarrow>
         (\<exists>t key. T h = Some t \<and> t_cb t = ExpiryCb key \<and> to_key key = k \<and> \<not> t_repeat t \<and>
            t_delay t = rec_duration r \<and> rec_duration r \<noteq> JUndefined))"
  unfolding exp_ok_def is_expiry_timer_def
  apply (cases "rec_expirationTimeout r")
   apply simp
  subgoal for h
    apply (cases "T h")
     apply simp
    subgoal for t by (cases "t_cb t") auto
    done
  done

lemma ref_ok_iff:
  "ref_ok T k r \<longleftrightarrow>
     (\<forall>h. rec_refreshInterval r = Some h \<longrightarrow>
         (\<exists>t key. T h = Some t \<and> t_cb t = RefreshCb key \<and> to_key key = k \<and> t_repeat t))"
  unfolding ref_ok_def is_refresh_timer_def
  apply (cases "rec_refreshInterval r")
   apply simp
  subgoal for h
    apply (cases "T h")
     apply simp
    subgoal for t by (cases "t_cb t") auto
    done
  done

lemma inv_iff:
  "cache_inv s \<longleftrightarrow> distinct (map fst (cache s)) \<and> distinct (map fst (timers s)) \<and>
     minv (map_of (cache s)) (map_of (timers s)) (nextTimerId s)"
  by (auto simp: cache_inv_def minv_def list_all_iff)

lemma minv_flat:
  "minv C T n \<longleftrightarrow>
((\<forall>i t. T i = Some t \<longrightarrow> i < n) \<and>
      (\<forall>i t key. T i = Some t \<longrightarrow> t_cb t = ExpiryCb key \<longrightarrow>
         \<not> t_repeat t \<and> (\<exists>r. C (to_key key) = Some r \<and> rec_expirationTimeout r = Some i)) \<and>
      (\<forall>i t key. T i = Some t \<longrightarrow> t_cb t = RefreshCb key \<longrightarrow>
         t_repeat t \<and> (\<exists>r. C (to_key key) = Some r \<and> rec_refreshInterval r = Some i)) \<and>
      (\<forall>k r. C k = Some r \<longrightarrow> rec_expirationTimeout r = None \<longrightarrow> rec_duration r = JUndefined) \<and>
      (\<forall>k r h. C k = Some r \<longrightarrow> rec_expirationTimeout r = Some h \<longrightarrow>
         (\<exists>t key. T h = Some t \<and> t_cb t = ExpiryCb key \<and> to_key key = k \<and> \<not> t_repeat t \<and>
            t_delay t = rec_duration r \<and> rec_duration r \<noteq> JUndefined)) \<and>
      (\<forall>k r h. C k = Some r \<longrightarrow> rec_refreshInterval r = Some h \<longrightarrow>
         (\<exists>t key. T h = Some t \<and> t_cb t = RefreshCb key \<and> to_key key = k \<and> t_repeat t)))"
  unfolding minv_def timer_owned_iff exp_ok_iff ref_ok_iff
  apply (rule iffI)
  subgoal
    apply (intro conjI)
    subgoal by blast
    subgoal by blast
    subgoal by blast
    subgoal by blast
    subgoal by blast
    subgoal by blast
    done
  subgoal
    apply (elim conjE)
    apply (intro conjI allI impI)
    subgoal by blast
    subgoal by blast
    subgoal by blast
    subgoal by blast
    subgoal by blast
    subgoal by blast
    subgoal by blast
    subgoal by blast
    done
  done

lemma typeof_undef [simp]: "(typeof d = TUndefined) = (d = JUndefined)"
  by (cases d) auto

lemma map_of_snoc_fresh:
  "i \<notin> fst ` set xs \<Longrightarrow> map_of (xs @ [(i, t)]) = (map_of xs)(i \<mapsto> t)"
proof
  fix j
  assume a: "i \<notin> fst ` set xs"
  then have "map_of xs i = None" by (simp add: map_of_eq_None_iff)
  then show "map_of (xs @ [(i, t)]) j = ((map_of xs)(i \<mapsto> t)) j"
    by (cases "map_of xs j") (auto simp: map_add_def)
qed

lemma minv_fresh: "minv C T n \<Longrightarrow> n \<le> m \<Longrightarrow> T m = None"
proof (cases "T m")
  case (Some t)
  assume "minv C T n" "n \<le> m"
  with Some have "m < n" unfolding minv_flat by blast
  with \<open>n \<le> m\<close> show ?thesis by simp
qed simp

lemma inv_fresh: "cache_inv s \<Longrightarrow> nextTimerId s \<le> m \<Longrightarrow> m \<notin> fst ` set (timers s)"
  by (auto simp: cache_inv_def list_all_iff)

lemma inv_init: "cache_inv init"
  by (simp add: cache_inv_def init_def)

subsection \<open>Each method preserves the invariant\<close>

lemmas prims = setTimeout_def setInterval_def clearTimeout_def clearInterval_def emit_def

lemma distinct_snoc_fresh:
  "distinct (map fst xs) \<Longrightarrow> i \<notin> fst ` set xs \<Longrightarrow> distinct (map fst (xs @ [(i, t)]))"
  by simp

lemma notin_delete: "i \<notin> fst ` set xs \<Longrightarrow> i \<notin> fst ` set (AList.delete j xs)"
  by (auto simp: AList.delete_eq)

lemma minv_put_value:
  assumes "minv C T n" "C k = Some r"
  shows "minv (C(k \<mapsto> r\<lparr>rec_value := v\<rparr>)) T n"
  using assms unfolding minv_flat
  apply (intro conjI)
  subgoal by blast
  subgoal by fastforce
  subgoal by fastforce
  subgoal by simp
  subgoal by simp
  subgoal by simp
  done

lemma minv_put_new:
  assumes "minv C T n" "C k = None"
  shows "minv (C(k \<mapsto> empty_record\<lparr>rec_value := v\<rparr>)) T n"
  using assms unfolding minv_flat
  apply (intro conjI)
  subgoal by blast
  subgoal by fastforce
  subgoal by fastforce
  subgoal by (simp add: empty_record_def)
  subgoal by (simp add: empty_record_def)
  subgoal by (simp add: empty_record_def)
  done

lemma minv_lt: "minv C T n \<Longrightarrow> T i = Some t \<Longrightarrow> i < n"
  unfolding minv_flat by blast

lemma minv_expT:
  "minv C T n \<Longrightarrow> T i = Some t \<Longrightarrow> t_cb t = ExpiryCb key \<Longrightarrow>
     \<not> t_repeat t \<and> (\<exists>r. C (to_key key) = Some r \<and> rec_expirationTimeout r = Some i)"
  unfolding minv_flat by blast

lemma minv_refT:
  "minv C T n \<Longrightarrow> T i = Some t \<Longrightarrow> t_cb t = RefreshCb key \<Longrightarrow>
     t_repeat t \<and> (\<exists>r. C (to_key key) = Some r \<and> rec_refreshInterval r = Some i)"
  unfolding minv_flat by blast

lemma minv_durC:
  "minv C T n \<Longrightarrow> C k = Some r \<Longrightarrow> rec_expirationTimeout r = None \<Longrightarrow>
     rec_duration r = JUndefined"
  unfolding minv_flat by blast

lemma minv_expC:
  "minv C T n \<Longrightarrow> C k = Some r \<Longrightarrow> rec_expirationTimeout r = Some h \<Longrightarrow>
     \<exists>t key. T h = Some t \<and> t_cb t = ExpiryCb key \<and> to_key key = k \<and> \<not> t_repeat t \<and>
        t_delay t = rec_duration r \<and> rec_duration r \<noteq> JUndefined"
  unfolding minv_flat by blast

lemma minv_refC:
  "minv C T n \<Longrightarrow> C k = Some r \<Longrightarrow> rec_refreshInterval r = Some h \<Longrightarrow>
     \<exists>t key. T h = Some t \<and> t_cb t = RefreshCb key \<and> to_key key = k \<and> t_repeat t"
  unfolding minv_flat by blast

lemma exp_handle_inj:
  assumes "minv C T n" "C k = Some r" "C k' = Some r'"
    "rec_expirationTimeout r = Some h" "rec_expirationTimeout r' = Some h"
  shows "k = k'"
  using minv_expC [OF assms(1,2,4)] minv_expC [OF assms(1,3,5)] by auto

lemma ref_handle_inj:
  assumes "minv C T n" "C k = Some r" "C k' = Some r'"
    "rec_refreshInterval r = Some h" "rec_refreshInterval r' = Some h"
  shows "k = k'"
  using minv_refC [OF assms(1,2,4)] minv_refC [OF assms(1,3,5)] by auto

lemma exp_ref_handle_neq:
  assumes "minv C T n" "C k = Some r" "C k' = Some r'"
    "rec_expirationTimeout r = Some h" "rec_refreshInterval r' = Some h"
  shows False
  using minv_expC [OF assms(1,2,4)] minv_refC [OF assms(1,3,5)] by auto

lemma minvI:
  assumes "\<And>i t. T i = Some t \<Longrightarrow> i < n"
    and "\<And>i t key. T i = Some t \<Longrightarrow> t_cb t = ExpiryCb key \<Longrightarrow>
           \<not> t_repeat t \<and> (\<exists>r. C (to_key key) = Some r \<and> rec_expirationTimeout r = Some i)"
    and "\<And>i t key. T i = Some t \<Longrightarrow> t_cb t = RefreshCb key \<Longrightarrow>
           t_repeat t \<and> (\<exists>r. C (to_key key) = Some r \<and> rec_refreshInterval r = Some i)"
    and "\<And>k r. C k = Some r \<Longrightarrow> rec_expirationTimeout r = None \<Longrightarrow>
           rec_duration r = JUndefined"
    and "\<And>k r h. C k = Some r \<Longrightarrow> rec_expirationTimeout r = Some h \<Longrightarrow>
           \<exists>t key. T h = Some t \<and> t_cb t = ExpiryCb key \<and> to_key key = k \<and> \<not> t_repeat t \<and>
              t_delay t = rec_duration r \<and> rec_duration r \<noteq> JUndefined"
    and "\<And>k r h. C k = Some r \<Longrightarrow> rec_refreshInterval r = Some h \<Longrightarrow>
           \<exists>t key. T h = Some t \<and> t_cb t = RefreshCb key \<and> to_key key = k \<and> t_repeat t"
  shows "minv C T n"
  unfolding minv_flat using assms by blast

lemma minv_set_expiry:
  assumes m: "minv C T n" and r: "C (to_key key) = Some r" and d: "d \<noteq> JUndefined"
  shows "minv (C(to_key key \<mapsto> r\<lparr>rec_duration := d, rec_expirationTimeout := Some n\<rparr>))
           ((\<lambda>i. if rec_expirationTimeout r = Some i then None else T i)
              (n \<mapsto> \<lparr>t_cb = ExpiryCb key, t_delay = d, t_since = x, t_repeat = False\<rparr>))
           (Suc n)"
    (is "minv ?C ?T _")
proof (rule minvI)
  fix i t assume "?T i = Some t"
  then show "i < Suc n"
    using minv_lt [OF m, of i t] by (auto split: if_splits)
next
  fix i t key' assume a: "?T i = Some t" "t_cb t = ExpiryCb key'"
  show "\<not> t_repeat t \<and> (\<exists>r. ?C (to_key key') = Some r \<and> rec_expirationTimeout r = Some i)"
  proof (cases "i = n")
    case True
    with a show ?thesis by auto
  next
    case False
    with a have T: "T i = Some t" and ne: "rec_expirationTimeout r \<noteq> Some i"
      by (auto split: if_splits)
    from minv_expT [OF m T a(2)] obtain r0 where
      r0: "\<not> t_repeat t" "C (to_key key') = Some r0" "rec_expirationTimeout r0 = Some i"
      by blast
    with r ne have "to_key key' \<noteq> to_key key" by auto
    with r0 show ?thesis by auto
  qed
next
  fix i t key' assume a: "?T i = Some t" "t_cb t = RefreshCb key'"
  then have T: "T i = Some t" by (auto split: if_splits)
  from minv_refT [OF m T a(2)] obtain r0 where
    r0: "t_repeat t" "C (to_key key') = Some r0" "rec_refreshInterval r0 = Some i"
    by blast
  with r show "t_repeat t \<and> (\<exists>r. ?C (to_key key') = Some r \<and> rec_refreshInterval r = Some i)"
    by (cases "to_key key' = to_key key") auto
next
  fix k' r' assume "?C k' = Some r'" "rec_expirationTimeout r' = None"
  then show "rec_duration r' = JUndefined"
    using minv_durC [OF m, of k' r'] by (auto split: if_splits)
next
  fix k' r' h assume a: "?C k' = Some r'" "rec_expirationTimeout r' = Some h"
  show "\<exists>t key. ?T h = Some t \<and> t_cb t = ExpiryCb key \<and> to_key key = k' \<and> \<not> t_repeat t \<and>
          t_delay t = rec_duration r' \<and> rec_duration r' \<noteq> JUndefined"
  proof (cases "k' = to_key key")
    case True
    with a d show ?thesis by auto
  next
    case False
    with a have c: "C k' = Some r'" by auto
    from minv_expC [OF m c a(2)] obtain t key0 where
      t: "T h = Some t" "t_cb t = ExpiryCb key0" "to_key key0 = k'" "\<not> t_repeat t"
        "t_delay t = rec_duration r'" "rec_duration r' \<noteq> JUndefined"
      by blast
    have "h \<noteq> n" using minv_lt [OF m t(1)] by simp
    moreover have "rec_expirationTimeout r \<noteq> Some h"
      using exp_handle_inj [OF m r c _ a(2)] False by auto
    ultimately show ?thesis using t by auto
  qed
next
  fix k' r' h assume a: "?C k' = Some r'" "rec_refreshInterval r' = Some h"
  then obtain r0 where c: "C k' = Some r0" "rec_refreshInterval r0 = Some h"
    using r by (cases "k' = to_key key") auto
  from minv_refC [OF m c] obtain t key0 where
    t: "T h = Some t" "t_cb t = RefreshCb key0" "to_key key0 = k'" "t_repeat t"
    by blast
  have "h \<noteq> n" using minv_lt [OF m t(1)] by simp
  moreover have "rec_expirationTimeout r \<noteq> Some h"
    using exp_ref_handle_neq [OF m r c(1) _ c(2)] by auto
  ultimately show "\<exists>t key. ?T h = Some t \<and> t_cb t = RefreshCb key \<and> to_key key = k' \<and> t_repeat t"
    using t by auto
qed

lemma minv_set_refresh:
  assumes m: "minv C T n" and r: "C (to_key key) = Some r"
  shows "minv (C(to_key key \<mapsto> r\<lparr>rec_refreshInterval := Some n\<rparr>))
           ((\<lambda>i. if rec_refreshInterval r = Some i then None else T i)
              (n \<mapsto> \<lparr>t_cb = RefreshCb key, t_delay = d, t_since = x, t_repeat = True\<rparr>))
           (Suc n)"
    (is "minv ?C ?T _")
proof (rule minvI)
  fix i t assume "?T i = Some t"
  then show "i < Suc n"
    using minv_lt [OF m, of i t] by (auto split: if_splits)
next
  fix i t key' assume a: "?T i = Some t" "t_cb t = RefreshCb key'"
  show "t_repeat t \<and> (\<exists>r. ?C (to_key key') = Some r \<and> rec_refreshInterval r = Some i)"
  proof (cases "i = n")
    case True
    with a show ?thesis by auto
  next
    case False
    with a have T: "T i = Some t" and ne: "rec_refreshInterval r \<noteq> Some i"
      by (auto split: if_splits)
    from minv_refT [OF m T a(2)] obtain r0 where
      r0: "t_repeat t" "C (to_key key') = Some r0" "rec_refreshInterval r0 = Some i"
      by blast
    with r ne have "to_key key' \<noteq> to_key key" by auto
    with r0 show ?thesis by auto
  qed
next
  fix i t key' assume a: "?T i = Some t" "t_cb t = ExpiryCb key'"
  then have T: "T i = Some t" by (auto split: if_splits)
  from minv_expT [OF m T a(2)] obtain r0 where
    r0: "\<not> t_repeat t" "C (to_key key') = Some r0" "rec_expirationTimeout r0 = Some i"
    by blast
  with r show "\<not> t_repeat t \<and> (\<exists>r. ?C (to_key key') = Some r \<and> rec_expirationTimeout r = Some i)"
    by (cases "to_key key' = to_key key") auto
next
  fix k' r' assume "?C k' = Some r'" "rec_expirationTimeout r' = None"
  then show "rec_duration r' = JUndefined"
    using minv_durC [OF m, of k' r'] minv_durC [OF m r] by (auto split: if_splits)
next
  fix k' r' h assume a: "?C k' = Some r'" "rec_refreshInterval r' = Some h"
  show "\<exists>t key. ?T h = Some t \<and> t_cb t = RefreshCb key \<and> to_key key = k' \<and> t_repeat t"
  proof (cases "k' = to_key key")
    case True
    with a show ?thesis by auto
  next
    case False
    with a have c: "C k' = Some r'" by auto
    from minv_refC [OF m c a(2)] obtain t key0 where
      t: "T h = Some t" "t_cb t = RefreshCb key0" "to_key key0 = k'" "t_repeat t"
      by blast
    have "h \<noteq> n" using minv_lt [OF m t(1)] by simp
    moreover have "rec_refreshInterval r \<noteq> Some h"
      using ref_handle_inj [OF m r c _ a(2)] False by auto
    ultimately show ?thesis using t by auto
  qed
next
  fix k' r' h assume a: "?C k' = Some r'" "rec_expirationTimeout r' = Some h"
  then obtain r0 where c: "C k' = Some r0" "rec_expirationTimeout r0 = Some h"
    "rec_duration r0 = rec_duration r'"
    using r by (cases "k' = to_key key") auto
  from minv_expC [OF m c(1,2)] obtain t key0 where
    t: "T h = Some t" "t_cb t = ExpiryCb key0" "to_key key0 = k'" "\<not> t_repeat t"
      "t_delay t = rec_duration r0" "rec_duration r0 \<noteq> JUndefined"
    by blast
  have "h \<noteq> n" using minv_lt [OF m t(1)] by simp
  moreover have "rec_refreshInterval r \<noteq> Some h"
    using exp_ref_handle_neq [OF m c(1) r c(2)] by auto
  ultimately show "\<exists>t key. ?T h = Some t \<and> t_cb t = ExpiryCb key \<and> to_key key = k' \<and> \<not> t_repeat t \<and>
          t_delay t = rec_duration r' \<and> rec_duration r' \<noteq> JUndefined"
    using t c(3) by auto
qed

lemma minv_del:
  assumes m: "minv C T n" and r: "C k = Some r"
  shows "minv (C(k := None))
           (\<lambda>i. if rec_refreshInterval r = Some i then None
                else if rec_expirationTimeout r = Some i then None else T i) n"
    (is "minv ?C ?T _")
proof (rule minvI)
  fix i t assume "?T i = Some t"
  then show "i < n"
    using minv_lt [OF m, of i t] by (auto split: if_splits)
next
  fix i t key' assume a: "?T i = Some t" "t_cb t = ExpiryCb key'"
  then have T: "T i = Some t" and ne: "rec_expirationTimeout r \<noteq> Some i"
    by (auto split: if_splits)
  from minv_expT [OF m T a(2)] obtain r0 where
    r0: "\<not> t_repeat t" "C (to_key key') = Some r0" "rec_expirationTimeout r0 = Some i"
    by blast
  with r ne have "to_key key' \<noteq> k" by auto
  with r0 show "\<not> t_repeat t \<and> (\<exists>r. ?C (to_key key') = Some r \<and> rec_expirationTimeout r = Some i)"
    by auto
next
  fix i t key' assume a: "?T i = Some t" "t_cb t = RefreshCb key'"
  then have T: "T i = Some t" and ne: "rec_refreshInterval r \<noteq> Some i"
    by (auto split: if_splits)
  from minv_refT [OF m T a(2)] obtain r0 where
    r0: "t_repeat t" "C (to_key key') = Some r0" "rec_refreshInterval r0 = Some i"
    by blast
  with r ne have "to_key key' \<noteq> k" by auto
  with r0 show "t_repeat t \<and> (\<exists>r. ?C (to_key key') = Some r \<and> rec_refreshInterval r = Some i)"
    by auto
next
  fix k' r' assume "?C k' = Some r'" "rec_expirationTimeout r' = None"
  then show "rec_duration r' = JUndefined"
    using minv_durC [OF m, of k' r'] by (auto split: if_splits)
next
  fix k' r' h assume a: "?C k' = Some r'" "rec_expirationTimeout r' = Some h"
  then have c: "C k' = Some r'" and ne: "k \<noteq> k'" by (auto split: if_splits)
  from minv_expC [OF m c a(2)] obtain t key0 where
    t: "T h = Some t" "t_cb t = ExpiryCb key0" "to_key key0 = k'" "\<not> t_repeat t"
      "t_delay t = rec_duration r'" "rec_duration r' \<noteq> JUndefined"
    by blast
  have "rec_expirationTimeout r \<noteq> Some h"
    using exp_handle_inj [OF m r c _ a(2)] ne by auto
  moreover have "rec_refreshInterval r \<noteq> Some h"
    using exp_ref_handle_neq [OF m c r a(2)] by auto
  ultimately show "\<exists>t key. ?T h = Some t \<and> t_cb t = ExpiryCb key \<and> to_key key = k' \<and> \<not> t_repeat t \<and>
          t_delay t = rec_duration r' \<and> rec_duration r' \<noteq> JUndefined"
    using t by auto
next
  fix k' r' h assume a: "?C k' = Some r'" "rec_refreshInterval r' = Some h"
  then have c: "C k' = Some r'" and ne: "k \<noteq> k'" by (auto split: if_splits)
  from minv_refC [OF m c a(2)] obtain t key0 where
    t: "T h = Some t" "t_cb t = RefreshCb key0" "to_key key0 = k'" "t_repeat t"
    by blast
  have "rec_refreshInterval r \<noteq> Some h"
    using ref_handle_inj [OF m r c _ a(2)] ne by auto
  moreover have "rec_expirationTimeout r \<noteq> Some h"
    using exp_ref_handle_neq [OF m r c _ a(2)] by auto
  ultimately show "\<exists>t key. ?T h = Some t \<and> t_cb t = RefreshCb key \<and> to_key key = k' \<and> t_repeat t"
    using t by auto
qed

lemma map_of_delete_handle:
  "map_of (AList.delete h ts) = (\<lambda>i. if Some h = Some i then None else map_of ts i)"
  by (auto simp: delete_conv' fun_eq_iff)

lemma step_val:
  assumes "cache_inv s"
  shows "cache_inv (s\<lparr>cache := AList.update k
                  ((case map_of (cache s) k of None \<Rightarrow> empty_record | Some r \<Rightarrow> r)
                     \<lparr>rec_value := v\<rparr>) (cache s)\<rparr>)"
  using assms
  by (cases "map_of (cache s) k")
     (auto simp: inv_iff distinct_update update_conv' minv_put_new minv_put_value)

lemma step_exp:
  assumes i: "cache_inv s" and r: "map_of (cache s) (to_key key) = Some r" and d: "d \<noteq> JUndefined"
  shows "cache_inv ((snd (setTimeout (clearTimeout s (rec_expirationTimeout r)) (ExpiryCb key) d))
               \<lparr>cache := AList.update (to_key key)
                   (r\<lparr>rec_duration := d, rec_expirationTimeout := Some (nextTimerId s)\<rparr>)
                   (cache s)\<rparr>)"
    (is "cache_inv ?s'")
proof -
  from i have m: "minv (map_of (cache s)) (map_of (timers s)) (nextTimerId s)"
    and dc: "distinct (map fst (cache s))" and dt: "distinct (map fst (timers s))"
    by (simp_all add: inv_iff)
  have fr: "nextTimerId s \<notin> fst ` set (timers s)"
    using inv_fresh [OF i] by simp
  then have fr': "map_of (timers s) (nextTimerId s) = None"
    by (simp add: map_of_eq_None_iff)
  have C: "map_of (cache ?s') = (map_of (cache s))(to_key key \<mapsto>
             r\<lparr>rec_duration := d, rec_expirationTimeout := Some (nextTimerId s)\<rparr>)"
    by (simp add: update_conv')
  have T: "map_of (timers ?s') =
             (\<lambda>i. if rec_expirationTimeout r = Some i then None else map_of (timers s) i)
               (nextTimerId s \<mapsto> \<lparr>t_cb = ExpiryCb key, t_delay = d, t_since = now s,
                                  t_repeat = False\<rparr>)"
    using fr' by (cases "rec_expirationTimeout r")
      (auto simp: fun_eq_iff prims delete_conv' map_add_def split: option.splits)
  have N: "nextTimerId ?s' = Suc (nextTimerId s)"
    by (cases "rec_expirationTimeout r") (simp_all add: prims)
  have D1: "distinct (map fst (cache ?s'))"
    using dc by (simp add: distinct_update)
  have D2: "distinct (map fst (timers ?s'))"
    using dt fr by (cases "rec_expirationTimeout r")
      (simp_all add: prims distinct_delete notin_delete)
  show ?thesis
    unfolding inv_iff C T N using D1 D2 minv_set_expiry [OF m r d, of "now s"] by blast
qed

lemma step_ref:
  assumes i: "cache_inv s" and r: "map_of (cache s) (to_key key) = Some r"
  shows "cache_inv ((snd (setInterval (clearInterval s (rec_refreshInterval r)) (RefreshCb key) d))
               \<lparr>cache := AList.update (to_key key)
                   (r\<lparr>rec_refreshInterval := Some (nextTimerId s)\<rparr>)
                   (cache s)\<rparr>)"
    (is "cache_inv ?s'")
proof -
  from i have m: "minv (map_of (cache s)) (map_of (timers s)) (nextTimerId s)"
    and dc: "distinct (map fst (cache s))" and dt: "distinct (map fst (timers s))"
    by (simp_all add: inv_iff)
  have fr: "nextTimerId s \<notin> fst ` set (timers s)"
    using inv_fresh [OF i] by simp
  then have fr': "map_of (timers s) (nextTimerId s) = None"
    by (simp add: map_of_eq_None_iff)
  have C: "map_of (cache ?s') = (map_of (cache s))(to_key key \<mapsto>
             r\<lparr>rec_refreshInterval := Some (nextTimerId s)\<rparr>)"
    by (simp add: update_conv')
  have T: "map_of (timers ?s') =
             (\<lambda>i. if rec_refreshInterval r = Some i then None else map_of (timers s) i)
               (nextTimerId s \<mapsto> \<lparr>t_cb = RefreshCb key, t_delay = d, t_since = now s,
                                  t_repeat = True\<rparr>)"
    using fr' by (cases "rec_refreshInterval r")
      (auto simp: fun_eq_iff prims delete_conv' map_add_def split: option.splits)
  have N: "nextTimerId ?s' = Suc (nextTimerId s)"
    by (cases "rec_refreshInterval r") (simp_all add: prims)
  have D1: "distinct (map fst (cache ?s'))"
    using dc by (simp add: distinct_update)
  have D2: "distinct (map fst (timers ?s'))"
    using dt fr by (cases "rec_refreshInterval r")
      (simp_all add: prims distinct_delete notin_delete)
  show ?thesis
    unfolding inv_iff C T N using D1 D2 minv_set_refresh [OF m r, of d "now s"] by blast
qed

lemma inv_del: "cache_inv s \<Longrightarrow> cache_inv (snd (del s key))"
proof (cases "map_of (cache s) (to_key key)")
  case None
  assume "cache_inv s"
  with None show ?thesis by (simp add: del_def)
next
  case (Some r)
  assume i: "cache_inv s"
  then have m: "minv (map_of (cache s)) (map_of (timers s)) (nextTimerId s)"
    and dc: "distinct (map fst (cache s))" and dt: "distinct (map fst (timers s))"
    by (simp_all add: inv_iff)
  let ?s' = "snd (del s key)"
  have C: "map_of (cache ?s') = (map_of (cache s))(to_key key := None)"
    using Some by (simp add: del_def Let_def prims delete_conv' split: option.splits)
  have T: "map_of (timers ?s') =
             (\<lambda>i. if rec_refreshInterval r = Some i then None
                  else if rec_expirationTimeout r = Some i then None else map_of (timers s) i)"
    using Some by (cases "rec_expirationTimeout r"; cases "rec_refreshInterval r")
      (auto simp: fun_eq_iff del_def Let_def prims delete_conv')
  have N: "nextTimerId ?s' = nextTimerId s"
    using Some by (simp add: del_def Let_def prims split: option.splits)
  have D1: "distinct (map fst (cache ?s'))"
    using Some dc by (simp add: del_def Let_def prims distinct_delete split: option.splits)
  have D2: "distinct (map fst (timers ?s'))"
    using Some dt by (simp add: del_def Let_def prims distinct_delete split: option.splits)
  show ?thesis
    unfolding inv_iff C T N using D1 D2 minv_del [OF m Some] by blast
qed

lemma inv_put:
  assumes i: "cache_inv s" and p: "put s key v d r = Inr (x, s')"
  shows "cache_inv s'"
proof -
  let ?k = "to_key key"
  let ?r0 = "(case map_of (cache s) ?k of None \<Rightarrow> empty_record | Some r \<Rightarrow> r)\<lparr>rec_value := v\<rparr>"
  let ?s0 = "s\<lparr>cache := AList.update ?k ?r0 (cache s)\<rparr>"
  have i0: "cache_inv ?s0" by (rule step_val [OF i])
  have c0: "map_of (cache ?s0) ?k = Some ?r0" by (simp add: update_conv')
  let ?r1 = "if d = JUndefined then ?r0
             else ?r0\<lparr>rec_duration := d, rec_expirationTimeout := Some (nextTimerId ?s0)\<rparr>"
  let ?s1 = "if d = JUndefined then ?s0
             else (snd (setTimeout (clearTimeout ?s0 (rec_expirationTimeout ?r0)) (ExpiryCb key) d))
                    \<lparr>cache := AList.update ?k ?r1 (cache ?s0)\<rparr>"
  have i1: "cache_inv ?s1"
  proof (cases "d = JUndefined")
    case True
    with i0 show ?thesis by simp
  next
    case False
    from step_exp [OF i0 c0 False] False show ?thesis by simp
  qed
  have c1: "map_of (cache ?s1) ?k = Some ?r1"
    by (simp add: update_conv' prims split: option.splits)
  let ?s2 = "if r = JUndefined then ?s1
             else (snd (setInterval (clearInterval ?s1 (rec_refreshInterval ?r1)) (RefreshCb key) r))
                    \<lparr>cache := AList.update ?k (?r1\<lparr>rec_refreshInterval := Some (nextTimerId ?s1)\<rparr>)
                        (cache ?s1)\<rparr>"
  have i2: "cache_inv ?s2"
  proof (cases "r = JUndefined")
    case True
    with i1 show ?thesis by simp
  next
    case False
    from step_ref [OF i1 c1, of r] False show ?thesis by simp
  qed
  have "s' = ?s2"
    using p
    by (cases "map_of (cache s) ?k"; cases "d = JUndefined"; cases "r = JUndefined")
       (auto simp: put_def Let_def prims empty_record_def split: if_splits option.splits)
  with i2 show ?thesis by simp
qed

lemma inv_emitted [simp]: "cache_inv (s\<lparr>emitted := e\<rparr>) = cache_inv s"
  by (simp add: cache_inv_def)

lemma inv_now [simp]: "cache_inv (s\<lparr>now := e\<rparr>) = cache_inv s"
  by (simp add: cache_inv_def)

lemma inv_resetOnAccess [simp]: "cache_inv (s\<lparr>resetOnAccess := e\<rparr>) = cache_inv s"
  by (simp add: cache_inv_def)

lemma inv_get: assumes i: "cache_inv s" shows "cache_inv (snd (get s key))"
proof (cases "map_of (cache s) (to_key key)")
  case None
  with i show ?thesis by (simp add: get_def)
next
  case (Some r)
  show ?thesis
  proof (cases "rec_duration r \<noteq> JUndefined \<and> resetOnAccess s")
    case True
    then have d: "rec_duration r \<noteq> JUndefined" by simp
    from step_exp [OF i Some d] True Some show ?thesis
      by (simp add: get_def Let_def prims split: option.splits)
  next
    case False
    with i Some show ?thesis by (auto simp: get_def)
  qed
qed

lemma fire_none: "map_of (timers s) i = None \<Longrightarrow> fire s i = Inr s"
  by (simp add: fire_def)

lemma fire_expiry:
  assumes i: "cache_inv s" and t: "map_of (timers s) i = Some t" and cb: "t_cb t = ExpiryCb key"
  shows "\<exists>r. map_of (cache s) (to_key key) = Some r \<and> rec_expirationTimeout r = Some i \<and>
           fire s i = Inr ((snd (del s key))
             \<lparr>emitted := emitted s @ [\<lparr>eventName = ''expiry'', ev_key = key,
                                       ev_value = rec_value r\<rparr>]\<rparr>)"
proof -
  from i have m: "minv (map_of (cache s)) (map_of (timers s)) (nextTimerId s)"
    by (simp add: inv_iff)
  from minv_expT [OF m t cb] obtain r where
    r: "\<not> t_repeat t" "map_of (cache s) (to_key key) = Some r" "rec_expirationTimeout r = Some i"
    by blast
  have "fire s i = Inr ((snd (del s key))
             \<lparr>emitted := emitted s @ [\<lparr>eventName = ''expiry'', ev_key = key,
                                       ev_value = rec_value r\<rparr>]\<rparr>)"
    using t cb r
    by (cases "rec_refreshInterval r")
       (simp_all add: fire_def run_callback_def del_def Let_def prims delete_idem)
  with r show ?thesis by blast
qed

lemma fire_refresh:
  assumes i: "cache_inv s" and t: "map_of (timers s) i = Some t" and cb: "t_cb t = RefreshCb key"
  shows "\<exists>r. map_of (cache s) (to_key key) = Some r \<and> rec_refreshInterval r = Some i \<and>
           fire s i = Inr (s\<lparr>emitted := emitted s @ [\<lparr>eventName = ''refresh'', ev_key = key,
                                                      ev_value = rec_value r\<rparr>]\<rparr>)"
proof -
  from i have m: "minv (map_of (cache s)) (map_of (timers s)) (nextTimerId s)"
    by (simp add: inv_iff)
  from minv_refT [OF m t cb] obtain r where
    r: "t_repeat t" "map_of (cache s) (to_key key) = Some r" "rec_refreshInterval r = Some i"
    by blast
  have "fire s i = Inr (s\<lparr>emitted := emitted s @ [\<lparr>eventName = ''refresh'', ev_key = key,
                                                      ev_value = rec_value r\<rparr>]\<rparr>)"
    using t cb r by (simp add: fire_def run_callback_def prims)
  with r show ?thesis by blast
qed

lemma fire_total: assumes i: "cache_inv s" shows "\<exists>s'. fire s i = Inr s' \<and> cache_inv s'"
proof (cases "map_of (timers s) i")
  case None
  with i show ?thesis by (simp add: fire_none)
next
  case (Some t)
  show ?thesis
  proof (cases "t_cb t")
    case (ExpiryCb key)
    from fire_expiry [OF i Some ExpiryCb] inv_del [OF i, of key] show ?thesis by auto
  next
    case (RefreshCb key)
    from fire_refresh [OF i Some RefreshCb] i show ?thesis by auto
  qed
qed

lemma set_object_keys: "set (object_keys al) = fst ` set al"
  by (auto simp: object_keys_def)

lemma cache_clear_one [simp]: "cache (clear_one s k) = cache s"
  by (simp add: clear_one_def prims split: option.splits)

lemma cache_foldl_clear_one [simp]: "cache (foldl clear_one s ks) = cache s"
  by (induction ks arbitrary: s) simp_all

lemma timers_clear_one:
  "timers (clear_one s k) =
     filter (\<lambda>(i, t). \<forall>r. map_of (cache s) k = Some r \<longrightarrow>
               rec_expirationTimeout r \<noteq> Some i \<and> rec_refreshInterval r \<noteq> Some i) (timers s)"
proof (cases "map_of (cache s) k")
  case None
  then show ?thesis by (simp add: clear_one_def)
next
  case (Some r)
  then show ?thesis
    by (cases "rec_expirationTimeout r"; cases "rec_refreshInterval r")
       (auto simp: clear_one_def prims AList.delete_eq intro!: filter_cong)
qed

lemma timers_foldl_clear_one:
  "timers (foldl clear_one s ks) =
     filter (\<lambda>(i, t). \<forall>k\<in>set ks. \<forall>r. map_of (cache s) k = Some r \<longrightarrow>
               rec_expirationTimeout r \<noteq> Some i \<and> rec_refreshInterval r \<noteq> Some i) (timers s)"
proof (induction ks arbitrary: s)
  case Nil
  show ?case by simp
next
  case (Cons k ks)
  show ?case
    by (simp add: Cons.IH timers_clear_one) (auto intro!: filter_cong)
qed

lemma timers_clear:
  assumes i: "cache_inv s" shows "timers (clear s) = []"
proof -
  from i have m: "minv (map_of (cache s)) (map_of (timers s)) (nextTimerId s)"
    and dc: "distinct (map fst (cache s))" and dt: "distinct (map fst (timers s))"
    by (simp_all add: inv_iff)
  have "\<exists>k\<in>set (keys s). \<exists>r. map_of (cache s) k = Some r \<and>
          (rec_expirationTimeout r = Some j \<or> rec_refreshInterval r = Some j)"
    if jt: "(j, t) \<in> set (timers s)" for j t
  proof -
    from jt dt have T: "map_of (timers s) j = Some t" by simp
    show ?thesis
    proof (cases "t_cb t")
      case (ExpiryCb key)
      from minv_expT [OF m T ExpiryCb] obtain r where
        r: "map_of (cache s) (to_key key) = Some r" "rec_expirationTimeout r = Some j" by blast
      then have "to_key key \<in> set (keys s)"
        by (auto simp: keys_def set_object_keys dest: map_of_SomeD intro: rev_image_eqI)
      with r show ?thesis by blast
    next
      case (RefreshCb key)
      from minv_refT [OF m T RefreshCb] obtain r where
        r: "map_of (cache s) (to_key key) = Some r" "rec_refreshInterval r = Some j" by blast
      then have "to_key key \<in> set (keys s)"
        by (auto simp: keys_def set_object_keys dest: map_of_SomeD intro: rev_image_eqI)
      with r show ?thesis by blast
    qed
  qed
  then show ?thesis
    by (fastforce simp: clear_def timers_foldl_clear_one filter_empty_conv)
qed

lemma cache_clear [simp]: "cache (clear s) = []"
  by (simp add: clear_def)

lemma inv_clear: "cache_inv s \<Longrightarrow> cache_inv (clear s)"
  by (simp add: cache_inv_def timers_clear)

lemma inv_apply_op: assumes i: "cache_inv s" shows "cache_inv (apply_op s op)"
proof (cases op)
  case (Put key v d r)
  then show ?thesis using i inv_put [OF i, of key v d r]
    by (auto split: sum.splits)
next
  case (Fire j)
  then show ?thesis using fire_total [OF i, of j] by auto
qed (use i in \<open>auto simp: inv_get inv_del inv_clear resetExpiryOnAccess_def\<close>)

lemma inv_run: "cache_inv s \<Longrightarrow> cache_inv (run s ops)"
  unfolding run_def by (induction ops arbitrary: s) (simp_all add: inv_apply_op)

lemma reachable_inv: "reachable s \<Longrightarrow> cache_inv s"
  by (auto simp: reachable_def inv_run inv_init)

subsection \<open>At most one timer of each kind per key\<close>

lemma filter_le_one:
  "distinct (map fst xs) \<Longrightarrow> (\<And>x. x \<in> set xs \<Longrightarrow> P x \<Longrightarrow> fst x = h) \<Longrightarrow>
     length (filter P xs) \<le> Suc 0"
proof (induction xs)
  case Nil
  show ?case by simp
next
  case (Cons x xs)
  show ?case
  proof (cases "P x")
    case True
    then have "fst x = h" using Cons.prems(2) by simp
    have "filter P xs = []"
    proof (rule ccontr)
      assume "filter P xs \<noteq> []"
      then obtain y where y: "y \<in> set xs" "P y"
        by (auto simp: filter_empty_conv)
      then have "fst y = h" using Cons.prems(2) by simp
      with \<open>fst x = h\<close> y(1) have "fst x \<in> fst ` set xs" by (metis imageI)
      with Cons.prems(1) show False by simp
    qed
    with True show ?thesis by simp
  next
    case False
    with Cons show ?thesis by simp
  qed
qed

lemma expiry_timers_le_one:
  assumes i: "cache_inv s" shows "length (expiry_timers s k) \<le> 1"
proof -
  from i have m: "minv (map_of (cache s)) (map_of (timers s)) (nextTimerId s)"
    and dt: "distinct (map fst (timers s))"
    by (simp_all add: inv_iff)
  have "length (filter (\<lambda>(i, t). is_expiry_timer k t) (timers s)) \<le> Suc 0"
  proof (cases "map_of (cache s) k")
    case None
    have "\<not> is_expiry_timer k t" if "(j, t) \<in> set (timers s)" for j t
    proof
      assume e: "is_expiry_timer k t"
      then obtain key where key: "t_cb t = ExpiryCb key" "to_key key = k"
        by (cases "t_cb t") (auto simp: is_expiry_timer_def)
      from that dt have "map_of (timers s) j = Some t" by simp
      from minv_expT [OF m this key(1)] key(2) None show False by auto
    qed
    then have "filter (\<lambda>(i, t). is_expiry_timer k t) (timers s) = []"
      by (auto simp: filter_empty_conv)
    then show ?thesis by simp
  next
    case (Some r)
    show ?thesis
    proof (rule filter_le_one [OF dt, where h = "the (rec_expirationTimeout r)"])
      fix x assume x: "x \<in> set (timers s)" "case x of (i, t) \<Rightarrow> is_expiry_timer k t"
      obtain j t where jt: "x = (j, t)" by (cases x)
      with x obtain key where key: "t_cb t = ExpiryCb key" "to_key key = k"
        by (cases "t_cb t") (auto simp: is_expiry_timer_def)
      from x jt dt have "map_of (timers s) j = Some t" by simp
      from minv_expT [OF m this key(1)] key(2) Some jt
      show "fst x = the (rec_expirationTimeout r)" by auto
    qed
  qed
  then show ?thesis by (simp add: expiry_timers_def)
qed

lemma refresh_timers_le_one:
  assumes i: "cache_inv s" shows "length (refresh_timers s k) \<le> 1"
proof -
  from i have m: "minv (map_of (cache s)) (map_of (timers s)) (nextTimerId s)"
    and dt: "distinct (map fst (timers s))"
    by (simp_all add: inv_iff)
  have "length (filter (\<lambda>(i, t). is_refresh_timer k t) (timers s)) \<le> Suc 0"
  proof (cases "map_of (cache s) k")
    case None
    have "\<not> is_refresh_timer k t" if "(j, t) \<in> set (timers s)" for j t
    proof
      assume e: "is_refresh_timer k t"
      then obtain key where key: "t_cb t = RefreshCb key" "to_key key = k"
        by (cases "t_cb t") (auto simp: is_refresh_timer_def)
      from that dt have "map_of (timers s) j = Some t" by simp
      from minv_refT [OF m this key(1)] key(2) None show False by auto
    qed
    then have "filter (\<lambda>(i, t). is_refresh_timer k t) (timers s) = []"
      by (auto simp: filter_empty_conv)
    then show ?thesis by simp
  next
    case (Some r)
    show ?thesis
    proof (rule filter_le_one [OF dt, where h = "the (rec_refreshInterval r)"])
      fix x assume x: "x \<in> set (timers s)" "case x of (i, t) \<Rightarrow> is_refresh_timer k t"
      obtain j t where jt: "x = (j, t)" by (cases x)
      with x obtain key where key: "t_cb t = RefreshCb key" "to_key key = k"
        by (cases "t_cb t") (auto simp: is_refresh_timer_def)
      from x jt dt have "map_of (timers s) j = Some t" by simp
      from minv_refT [OF m this key(1)] key(2) Some jt
      show "fst x = the (rec_refreshInterval r)" by auto
    qed
  qed
  then show ?thesis by (simp add: refresh_timers_def)
qed

subsection \<open>A handle that is no longer pending stays so\<close>

lemma ids_clearTimeout: "fst ` set (timers (clearTimeout s h)) \<subseteq> fst ` set (timers s)"
  by (cases h) (auto simp: clearTimeout_def AList.delete_eq)

lemma ids_clearInterval: "fst ` set (timers (clearInterval s h)) \<subseteq> fst ` set (timers s)"
  by (cases h) (auto simp: clearInterval_def AList.delete_eq)

lemma next_clearTimeout [simp]: "nextTimerId (clearTimeout s h) = nextTimerId s"
  by (cases h) (auto simp: clearTimeout_def)

lemma next_clearInterval [simp]: "nextTimerId (clearInterval s h) = nextTimerId s"
  by (cases h) (auto simp: clearInterval_def)

lemma dead_del:
  assumes "i \<notin> fst ` set (timers s)"
  shows "i \<notin> fst ` set (timers (snd (del s key)))"
proof (cases "map_of (cache s) (to_key key)")
  case None
  with assms show ?thesis by (simp add: del_def)
next
  case (Some r)
  have "fst ` set (timers (clearInterval (clearTimeout s (rec_expirationTimeout r))
          (rec_refreshInterval r))) \<subseteq> fst ` set (timers s)"
    using ids_clearInterval ids_clearTimeout by (rule subset_trans)
  with assms Some show ?thesis
    by (auto simp: del_def Let_def)
qed

lemma next_del [simp]: "nextTimerId (snd (del s key)) = nextTimerId s"
  by (simp add: del_def Let_def split: option.splits)

lemma dead_get:
  assumes "i < nextTimerId s" "i \<notin> fst ` set (timers s)"
  shows "i < nextTimerId (snd (get s key)) \<and> i \<notin> fst ` set (timers (snd (get s key)))"
proof (cases "map_of (cache s) (to_key key)")
  case None
  with assms show ?thesis by (simp add: get_def)
next
  case (Some r)
  from assms(2) have "i \<notin> fst ` set (timers (clearTimeout s (rec_expirationTimeout r)))"
    using ids_clearTimeout by blast
  with assms Some show ?thesis
    by (auto simp: get_def Let_def setTimeout_def)
qed

lemma dead_put:
  assumes "i < nextTimerId s" "i \<notin> fst ` set (timers s)" "put s key v d r = Inr (x, s')"
  shows "i < nextTimerId s' \<and> i \<notin> fst ` set (timers s')"
proof -
  have a: "\<And>b. (i, b) \<notin> set (timers s)"
    using assms(2) by force
  have "i < nextTimerId s' \<and> (\<forall>b. (i, b) \<notin> set (timers s'))"
    using assms(1,3) a
    by (cases "map_of (cache s) (to_key key)"; cases "d = JUndefined"; cases "r = JUndefined")
       (auto simp: put_def Let_def prims empty_record_def AList.delete_eq
             split: if_splits option.splits)
  then show ?thesis by force
qed

lemma dead_clear:
  assumes "i \<notin> fst ` set (timers s)"
  shows "i \<notin> fst ` set (timers (clear s))"
proof -
  have "set (timers (clear s)) \<subseteq> set (timers s)"
    unfolding clear_def by (simp add: timers_foldl_clear_one)
  with assms show ?thesis by blast
qed

lemma next_clear_one [simp]: "nextTimerId (clear_one s k) = nextTimerId s"
  by (simp add: clear_one_def split: option.splits)

lemma next_clear [simp]: "nextTimerId (clear s) = nextTimerId s"
proof -
  have "nextTimerId (foldl clear_one s ks) = nextTimerId s" for ks
    by (induction ks arbitrary: s) simp_all
  then show ?thesis by (simp add: clear_def)
qed

lemma dead_callback:
  assumes "i < nextTimerId s" "i \<notin> fst ` set (timers s)" "run_callback s cb = Inr s'"
  shows "i < nextTimerId s' \<and> i \<notin> fst ` set (timers s')"
proof (cases cb)
  case (ExpiryCb key)
  with assms(3) obtain r :: entry where
    s': "s' = snd (del (emit s ''expiry'' key (rec_value r)) key)"
    by (cases "map_of (cache s) (to_key key)") (auto simp: run_callback_def)
  have "i \<notin> fst ` set (timers (snd (del (emit s ''expiry'' key (rec_value r)) key)))"
    by (rule dead_del) (use assms in \<open>simp add: emit_def\<close>)
  with assms(1) s' show ?thesis by (simp add: emit_def)
next
  case (RefreshCb key)
  with assms show ?thesis
    by (auto simp: run_callback_def emit_def split: option.splits)
qed

lemma dead_fire:
  assumes "i < nextTimerId s" "i \<notin> fst ` set (timers s)"
  shows "i < nextTimerId (apply_op s (Fire j)) \<and> i \<notin> fst ` set (timers (apply_op s (Fire j)))"
proof (cases "map_of (timers s) j")
  case None
  with assms show ?thesis by (simp add: fire_def)
next
  case (Some t)
  let ?s1 = "if t_repeat t then s else s\<lparr>timers := AList.delete j (timers s)\<rparr>"
  have d: "i \<notin> fst ` set (AList.delete j (timers s))"
    using assms(2) by (rule notin_delete)
  have s1: "i < nextTimerId ?s1" "i \<notin> fst ` set (timers ?s1)"
    using assms d by simp_all
  have f: "fire s j = run_callback ?s1 (t_cb t)"
    using Some by (simp add: fire_def)
  show ?thesis
  proof (cases "run_callback ?s1 (t_cb t)")
    case (Inl e)
    with f assms(1) d show ?thesis by simp
  next
    case (Inr s')
    from dead_callback [OF s1 Inr] f Inr show ?thesis by simp
  qed
qed

lemma dead_apply_op:
  assumes "i < nextTimerId s" "i \<notin> fst ` set (timers s)"
  shows "i < nextTimerId (apply_op s op) \<and> i \<notin> fst ` set (timers (apply_op s op))"
proof (cases op)
  case (Put key v d r)
  then show ?thesis using assms dead_put [OF assms, of key v d r]
    by (auto split: sum.splits)
next
  case (Get key)
  then show ?thesis using dead_get [OF assms] by simp
next
  case (Del key)
  then show ?thesis using dead_del [OF assms(2)] assms(1) by simp
next
  case Clear
  then show ?thesis using dead_clear [OF assms(2)] assms(1) by simp
next
  case (ResetExpiryOnAccess b)
  then show ?thesis using assms by (simp add: resetExpiryOnAccess_def)
next
  case (Advance n)
  then show ?thesis using assms by simp
next
  case (Fire j)
  then show ?thesis using dead_fire [OF assms] by simp
qed

lemma dead_run:
  "i < nextTimerId s \<Longrightarrow> i \<notin> fst ` set (timers s) \<Longrightarrow>
     i < nextTimerId (run s ops) \<and> i \<notin> fst ` set (timers (run s ops))"
  unfolding run_def
proof (induction ops arbitrary: s)
  case Nil
  then show ?case by simp
next
  case (Cons op ops)
  from dead_apply_op [OF Cons.prems] Cons.IH show ?case by simp
qed

subsection \<open>What the methods leave alone\<close>

lemma put_frame:
  assumes "put s key v d r = Inr (x, s')"
  shows "x = v \<and> emitted s' = emitted s \<and> now s' = now s \<and> resetOnAccess s' = resetOnAccess s \<and>
         (\<exists>rec. cache s' = AList.update (to_key key) rec (cache s) \<and> rec_value rec = v)"
  using assms
  by (cases "map_of (cache s) (to_key key)"; cases "d = JUndefined"; cases "r = JUndefined")
     (auto simp: put_def Let_def prims split: if_splits option.splits)

lemma get_frame:
  "emitted (snd (get s key)) = emitted s \<and> now (snd (get s key)) = now s \<and>
   resetOnAccess (snd (get s key)) = resetOnAccess s \<and>
   map fst (cache (snd (get s key))) = map fst (cache s)"
proof (cases "map_of (cache s) (to_key key)")
  case None
  then show ?thesis by (simp add: get_def)
next
  case (Some r)
  then have "to_key key \<in> set (map fst (cache s))"
    by (auto dest: map_of_SomeD intro: rev_image_eqI)
  with Some show ?thesis
    by (cases "rec_expirationTimeout r") (auto simp: get_def Let_def prims update_keys)
qed

lemma get_absent:
  assumes "map_of (cache s) k = None"
  shows "map_of (cache (snd (get s key))) k = None"
proof -
  have "map fst (cache (snd (get s key))) = map fst (cache s)" by (simp add: get_frame)
  then have "fst ` set (cache (snd (get s key))) = fst ` set (cache s)"
    by (metis list.set_map)
  with assms show ?thesis by (simp add: map_of_eq_None_iff)
qed

lemma del_frame:
  "emitted (snd (del s key)) = emitted s \<and> now (snd (del s key)) = now s \<and>
   resetOnAccess (snd (del s key)) = resetOnAccess s \<and>
   cache (snd (del s key)) = AList.delete (to_key key) (cache s)"
proof (cases "map_of (cache s) (to_key key)")
  case None
  then have "to_key key \<notin> fst ` set (cache s)" by (simp add: map_of_eq_None_iff)
  with None show ?thesis by (simp add: del_def)
next
  case (Some r)
  then show ?thesis
    by (cases "rec_expirationTimeout r"; cases "rec_refreshInterval r")
       (simp_all add: del_def Let_def prims)
qed

lemma emitted_clear_one [simp]: "emitted (clear_one s k) = emitted s"
  by (simp add: clear_one_def prims split: option.splits)

lemma emitted_clear [simp]: "emitted (clear s) = emitted s"
proof -
  have "emitted (foldl clear_one s ks) = emitted s" for ks
    by (induction ks arbitrary: s) simp_all
  then show ?thesis by (simp add: clear_def)
qed

lemma events_for_append [simp]: "events_for k (es @ fs) = events_for k es @ events_for k fs"
  by (simp add: events_for_def)

lemma absent_apply_op:
  assumes i: "cache_inv s" and a: "map_of (cache s) k = None" and np: "\<not> puts_key k op"
  shows "map_of (cache (apply_op s op)) k = None \<and>
         events_for k (emitted (apply_op s op)) = events_for k (emitted s)"
proof (cases op)
  case (Put key v d r)
  with np have ne: "to_key key \<noteq> k" by (simp add: puts_key_def)
  show ?thesis
  proof (cases "put s key v d r")
    case (Inl e)
    with Put a show ?thesis by simp
  next
    case (Inr p)
    obtain x s' where p: "p = (x, s')" by (cases p)
    from put_frame [OF Inr [unfolded p]] obtain rec where
      "emitted s' = emitted s" "cache s' = AList.update (to_key key) rec (cache s)" by blast
    with Put Inr p a ne show ?thesis by (simp add: update_conv')
  qed
next
  case (Get key)
  with a show ?thesis by (simp add: get_absent get_frame)
next
  case (Del key)
  with a show ?thesis by (simp add: del_frame delete_conv')
next
  case Clear
  then show ?thesis by simp
next
  case (ResetExpiryOnAccess b)
  with a show ?thesis by (auto simp: resetExpiryOnAccess_def)
next
  case (Advance n)
  with a show ?thesis by simp
next
  case (Fire j)
  show ?thesis
  proof (cases "map_of (timers s) j")
    case None
    with Fire a show ?thesis by (simp add: fire_none)
  next
    case (Some t)
    show ?thesis
    proof (cases "t_cb t")
      case (ExpiryCb key)
      from fire_expiry [OF i Some ExpiryCb] obtain r where
        r: "map_of (cache s) (to_key key) = Some r"
        "fire s j = Inr ((snd (del s key))
             \<lparr>emitted := emitted s @ [\<lparr>eventName = ''expiry'', ev_key = key,
                                       ev_value = rec_value r\<rparr>]\<rparr>)"
        by blast
      with a have "to_key key \<noteq> k" by auto
      with Fire r a show ?thesis
        by (simp add: del_frame delete_conv' events_for_def)
    next
      case (RefreshCb key)
      from fire_refresh [OF i Some RefreshCb] obtain r where
        r: "map_of (cache s) (to_key key) = Some r"
        "fire s j = Inr (s\<lparr>emitted := emitted s @ [\<lparr>eventName = ''refresh'', ev_key = key,
                                                      ev_value = rec_value r\<rparr>]\<rparr>)"
        by blast
      with a have "to_key key \<noteq> k" by auto
      with Fire r a show ?thesis
        by (simp add: events_for_def)
    qed
  qed
qed

lemma absent_run:
  "cache_inv s \<Longrightarrow> map_of (cache s) k = None \<Longrightarrow> list_all (\<lambda>op. \<not> puts_key k op) ops \<Longrightarrow>
     map_of (cache (run s ops)) k = None \<and>
     events_for k (emitted (run s ops)) = events_for k (emitted s)"
  unfolding run_def
proof (induction ops arbitrary: s)
  case Nil
  then show ?case by simp
next
  case (Cons op ops)
  from Cons.prems have np: "\<not> puts_key k op" and rest: "list_all (\<lambda>op. \<not> puts_key k op) ops"
    by simp_all
  from absent_apply_op [OF Cons.prems(1,2) np] inv_apply_op [OF Cons.prems(1), of op]
    Cons.IH [of "apply_op s op", OF _ _ rest]
  show ?case by simp
qed

lemma put_total:
  assumes "\<not> not_positive_number d" "\<not> not_positive_number r"
  shows "\<exists>s'. put s key v d r = Inr (v, s')"
  using assms
  by (simp add: put_def Let_def split: prod.splits)

lemma inv_handles:
  assumes i: "cache_inv s" and c: "map_of (cache s) k = Some old"
  shows "(\<forall>h. rec_expirationTimeout old = Some h \<longrightarrow> h < nextTimerId s \<and> rec_refreshInterval old \<noteq> Some h)
       \<and> (\<forall>h. rec_refreshInterval old = Some h \<longrightarrow> h < nextTimerId s)"
proof -
  from i have m: "minv (map_of (cache s)) (map_of (timers s)) (nextTimerId s)"
    by (simp add: inv_iff)
  show ?thesis
    using minv_expC [OF m c] minv_refC [OF m c] minv_lt [OF m] exp_ref_handle_neq [OF m c c]
    by (metis)
qed

lemmas eval_defs = run_def init_def put_def get_def del_def clear_def clear_one_def keys_def
  size_of_def object_keys_def fire_def run_callback_def resetExpiryOnAccess_def
  not_positive_number_def empty_record_def setTimeout_def setInterval_def clearTimeout_def
  clearInterval_def emit_def Let_def is_array_index_def is_digit_def index_value_def

lemma reachable_run: "reachable (run init ops)"
  by (auto simp: reachable_def)

lemma reachable_apply_op: "reachable s \<Longrightarrow> reachable (apply_op s op)"
proof -
  assume "reachable s"
  then obtain ops where "s = run init ops" by (auto simp: reachable_def)
  then have "apply_op s op = run init (ops @ [op])" by (simp add: run_def)
  then show ?thesis unfolding reachable_def by blast
qed

lemma absent_no_timers:
  assumes i: "cache_inv s" and a: "map_of (cache s) k = None"
  shows "expiry_timers s k = [] \<and> refresh_timers s k = []"
proof -
  from i have m: "minv (map_of (cache s)) (map_of (timers s)) (nextTimerId s)"
    and dt: "distinct (map fst (timers s))"
    by (simp_all add: inv_iff)
  have "\<not> is_expiry_timer k t \<and> \<not> is_refresh_timer k t" if "(j, t) \<in> set (timers s)" for j t
  proof (cases "t_cb t")
    case (ExpiryCb key)
    from that dt have "map_of (timers s) j = Some t" by simp
    from minv_expT [OF m this ExpiryCb] a ExpiryCb show ?thesis
      by (auto simp: is_expiry_timer_def is_refresh_timer_def)
  next
    case (RefreshCb key)
    from that dt have "map_of (timers s) j = Some t" by simp
    from minv_refT [OF m this RefreshCb] a RefreshCb show ?thesis
      by (auto simp: is_expiry_timer_def is_refresh_timer_def)
  qed
  then show ?thesis
    by (auto simp: expiry_timers_def refresh_timers_def filter_empty_conv)
qed

lemma object_keys_Nil [simp]: "object_keys [] = []"
  by (simp add: object_keys_def)

lemma not_positive_number_iff:
  "not_positive_number d \<longleftrightarrow>
     d \<noteq> JUndefined \<and> \<not> finite_positive_number d \<and> d \<noteq> JNum PosInf"
proof (cases d)
  case (JNum n)
  then show ?thesis
    by (cases n) (auto simp: not_positive_number_def finite_positive_number_def)
qed (auto simp: not_positive_number_def finite_positive_number_def)

lemma put_stores:
  assumes "\<not> not_positive_number d" "\<not> not_positive_number r"
  shows "\<exists>s' new. put s key v d r = Inr (v, s') \<and>
           map_of (cache s') (to_key key) = Some new \<and> rec_value new = v"
proof -
  from put_total [OF assms] obtain s' where p: "put s key v d r = Inr (v, s')" by blast
  from put_frame [OF p] obtain rec where
    "cache s' = AList.update (to_key key) rec (cache s)" "rec_value rec = v" by blast
  then have "map_of (cache s') (to_key key) = Some rec \<and> rec_value rec = v"
    by (simp add: update_conv')
  with p show ?thesis by blast
qed

lemma put_throws:
  assumes "not_positive_number d \<or> not_positive_number r"
  shows "(\<exists>msg. put s key v d r = Inl (Error msg)) \<and> apply_op s (Put key v d r) = s"
  using assms by (auto simp: put_def)

lemma get_after_put:
  assumes "put s key v d r = Inr (x, s')"
  shows "fst (get s' key) = v"
proof -
  from put_frame [OF assms] obtain rec where
    "cache s' = AList.update (to_key key) rec (cache s)" "rec_value rec = v" by blast
  then have "map_of (cache s') (to_key key) = Some rec" "rec_value rec = v"
    by (simp_all add: update_conv')
  then show ?thesis
    by (simp add: get_def Let_def setTimeout_def split: prod.splits)
qed

subsection \<open>The order of keys\<close>

lemma object_keys_split:
  "filter is_array_index (object_keys al) = sort_key index_value (filter is_array_index (map fst al))
   \<and> filter (\<lambda>k. \<not> is_array_index k) (object_keys al) = filter (\<lambda>k. \<not> is_array_index k) (map fst al)"
proof -
  have a: "filter is_array_index (sort_key index_value (filter is_array_index xs))
             = sort_key index_value (filter is_array_index xs)" for xs :: "string list"
    by (simp add: filter_sort)
  have b: "filter (\<lambda>k. \<not> is_array_index k) (sort_key index_value (filter is_array_index xs)) = []"
    for xs :: "string list"
    by (simp add: filter_sort)
  show ?thesis by (simp add: object_keys_def a b)
qed

lemma object_keys_same:
  "map fst al = map fst bl \<Longrightarrow> object_keys al = object_keys bl"
  by (simp add: object_keys_def)

lemma object_keys_snoc:
  "\<not> is_array_index k \<Longrightarrow> map fst bl = map fst al @ [k] \<Longrightarrow> object_keys bl = object_keys al @ [k]"
  by (simp add: object_keys_def)

lemma object_keys_removeAll:
  "map fst bl = removeAll k (map fst al) \<Longrightarrow> object_keys bl = removeAll k (object_keys al)"
  by (simp add: object_keys_def removeAll_filter_not_eq filter_sort conj_commute)

lemma keys_after_put:
  assumes p: "put s key v d r = Inr (x, s')"
  shows "map fst (cache s') =
           (if to_key key \<in> set (keys s) then map fst (cache s)
            else map fst (cache s) @ [to_key key])"
proof -
  from put_frame [OF p] obtain rec where
    "cache s' = AList.update (to_key key) rec (cache s)" by blast
  then show ?thesis by (simp add: update_keys keys_def set_object_keys)
qed

subsection \<open>Keys with the same string form\<close>










section \<open>The claims\<close>

text \<open>
  C1. Let the key be present and the arguments pass the validation of \<^verbatim>\<open>put\<close>. The call
  returns the value and the entry holds it. With a duration supplied, the entry's old
  expiration handle is no longer pending, and the entry owns a fresh timeout with the
  expiry callback, delay \<open>d\<close>, scheduled at the clock reading of the call; with the duration
  omitted, the entry keeps its duration and its handle, and the pending timer behind that
  handle is the same as before (same callback, delay and scheduling time). The same holds
  for the refresh interval, and each of the two holds whatever the other argument is, so
  supplying one of them leaves the other timer untouched.
\<close>

theorem put_existing_key:
  assumes re: "reachable s"
    and c: "map_of (cache s) (to_key key) = Some old"
    and vd: "\<not> not_positive_number d" and vr: "\<not> not_positive_number r"
  shows "\<exists>s' new. put s key v d r = Inr (v, s') \<and>
           map_of (cache s') (to_key key) = Some new \<and> rec_value new = v \<and>
           (d = JUndefined \<longrightarrow>
              rec_expirationTimeout new = rec_expirationTimeout old \<and>
              rec_duration new = rec_duration old \<and>
              (\<forall>h. rec_expirationTimeout old = Some h \<longrightarrow>
                 map_of (timers s') h = map_of (timers s) h)) \<and>
           (d \<noteq> JUndefined \<longrightarrow>
              (\<forall>h. rec_expirationTimeout old = Some h \<longrightarrow> map_of (timers s') h = None) \<and>
              rec_expirationTimeout new = Some (nextTimerId s) \<and> rec_duration new = d \<and>
              map_of (timers s') (nextTimerId s) =
                Some \<lparr>t_cb = ExpiryCb key, t_delay = d, t_since = now s, t_repeat = False\<rparr>) \<and>
           (r = JUndefined \<longrightarrow>
              rec_refreshInterval new = rec_refreshInterval old \<and>
              (\<forall>h. rec_refreshInterval old = Some h \<longrightarrow>
                 map_of (timers s') h = map_of (timers s) h)) \<and>
           (r \<noteq> JUndefined \<longrightarrow>
              (\<forall>h. rec_refreshInterval old = Some h \<longrightarrow> map_of (timers s') h = None) \<and>
              rec_refreshInterval new =
                Some (if d = JUndefined then nextTimerId s else Suc (nextTimerId s)) \<and>
              map_of (timers s') (if d = JUndefined then nextTimerId s else Suc (nextTimerId s)) =
                Some \<lparr>t_cb = RefreshCb key, t_delay = r, t_since = now s, t_repeat = True\<rparr>)"
proof -
  from re have i: "cache_inv s" by (rule reachable_inv)
  have fr: "map_of (timers s) (nextTimerId s) = None"
    using inv_fresh [OF i, of "nextTimerId s"] by (simp add: map_of_eq_None_iff)
  have fr': "map_of (timers s) (Suc (nextTimerId s)) = None"
    using inv_fresh [OF i, of "Suc (nextTimerId s)"] by (simp add: map_of_eq_None_iff)
  note H = inv_handles [OF i c]
  show ?thesis
  proof (cases "d = JUndefined"; cases "r = JUndefined")
    assume "d = JUndefined" "r = JUndefined"
    with c show ?thesis
      by (simp add: put_def Let_def not_positive_number_def update_conv')
  next
    assume a: "d = JUndefined" "r \<noteq> JUndefined"
    with c vr H fr show ?thesis
      by (cases "rec_refreshInterval old")
         (auto simp: put_def Let_def not_positive_number_def prims update_conv' delete_conv'
            map_add_def split: option.splits)
  next
    assume a: "d \<noteq> JUndefined" "r = JUndefined"
    with c vd H fr show ?thesis
      by (cases "rec_expirationTimeout old")
         (auto simp: put_def Let_def not_positive_number_def prims update_conv' delete_conv'
            map_add_def split: option.splits)
  next
    assume a: "d \<noteq> JUndefined" "r \<noteq> JUndefined"
    with c vd vr H fr fr' show ?thesis
      by (cases "rec_expirationTimeout old"; cases "rec_refreshInterval old")
         (auto simp: put_def Let_def prims update_conv' delete_conv'
            map_add_def split: option.splits)
  qed
qed

theorem put_existing_key_witness:
  "reachable (run init [Put (JStr ''k'') (JStr ''v1'') (JNum (Fin 1000)) (JNum (Fin 10)),
                        Advance 999]) \<and>
   (\<exists>s' new.
      put (run init [Put (JStr ''k'') (JStr ''v1'') (JNum (Fin 1000)) (JNum (Fin 10)),
                     Advance 999])
        (JStr ''k'') (JStr ''v2'') JUndefined JUndefined = Inr (JStr ''v2'', s') \<and>
      map_of (cache s') ''k'' = Some new \<and> rec_value new = JStr ''v2'' \<and>
      rec_expirationTimeout new = Some 0 \<and> rec_duration new = JNum (Fin 1000) \<and>
      map_of (timers s') 0 =
        Some \<lparr>t_cb = ExpiryCb (JStr ''k''), t_delay = JNum (Fin 1000), t_since = 0,
              t_repeat = False\<rparr> \<and>
      rec_refreshInterval new = Some 1 \<and>
      map_of (timers s') 1 =
        Some \<lparr>t_cb = RefreshCb (JStr ''k''), t_delay = JNum (Fin 10), t_since = 0,
              t_repeat = True\<rparr>) \<and>
   (\<exists>s' new.
      put (run init [Put (JStr ''k'') (JStr ''v1'') (JNum (Fin 1000)) (JNum (Fin 10)),
                     Advance 999])
        (JStr ''k'') (JStr ''v2'') (JNum (Fin 500)) JUndefined = Inr (JStr ''v2'', s') \<and>
      map_of (cache s') ''k'' = Some new \<and> rec_value new = JStr ''v2'' \<and>
      map_of (timers s') 0 = None \<and>
      rec_expirationTimeout new = Some 2 \<and> rec_duration new = JNum (Fin 500) \<and>
      map_of (timers s') 2 =
        Some \<lparr>t_cb = ExpiryCb (JStr ''k''), t_delay = JNum (Fin 500), t_since = 999,
              t_repeat = False\<rparr> \<and>
      rec_refreshInterval new = Some 1 \<and>
      map_of (timers s') 1 =
        Some \<lparr>t_cb = RefreshCb (JStr ''k''), t_delay = JNum (Fin 10), t_since = 0,
              t_repeat = True\<rparr>) \<and>
   (\<exists>s' new.
      put (run init [Put (JStr ''k'') (JStr ''v1'') (JNum (Fin 1000)) (JNum (Fin 10)),
                     Advance 999])
        (JStr ''k'') (JStr ''v2'') JUndefined (JNum (Fin 20)) = Inr (JStr ''v2'', s') \<and>
      map_of (cache s') ''k'' = Some new \<and> rec_value new = JStr ''v2'' \<and>
      map_of (timers s') 1 = None \<and>
      rec_refreshInterval new = Some 2 \<and>
      map_of (timers s') 2 =
        Some \<lparr>t_cb = RefreshCb (JStr ''k''), t_delay = JNum (Fin 20), t_since = 999,
              t_repeat = True\<rparr> \<and>
      rec_expirationTimeout new = Some 0 \<and> rec_duration new = JNum (Fin 1000) \<and>
      map_of (timers s') 0 =
        Some \<lparr>t_cb = ExpiryCb (JStr ''k''), t_delay = JNum (Fin 1000), t_since = 0,
              t_repeat = False\<rparr>)"
proof -
  let ?s = "run init [Put (JStr ''k'') (JStr ''v1'') (JNum (Fin 1000)) (JNum (Fin 10)),
                      Advance 999]"
  have r: "reachable ?s" by (rule reachable_run)
  have c: "map_of (cache ?s) (to_key (JStr ''k'')) =
             Some \<lparr>rec_value = JStr ''v1'', rec_duration = JNum (Fin 1000),
                   rec_expirationTimeout = Some 0, rec_refreshInterval = Some 1\<rparr>"
    by (simp add: eval_defs)
  have t: "timers ?s =
     [(0, \<lparr>t_cb = ExpiryCb (JStr ''k''), t_delay = JNum (Fin 1000), t_since = 0,
              t_repeat = False\<rparr>),
      (1, \<lparr>t_cb = RefreshCb (JStr ''k''), t_delay = JNum (Fin 10), t_since = 0,
              t_repeat = True\<rparr>)]"
    "nextTimerId ?s = 2" "now ?s = 999"
    by (simp_all add: eval_defs)
  have v: "\<not> not_positive_number JUndefined" "\<not> not_positive_number (JNum (Fin 500))"
    "\<not> not_positive_number (JNum (Fin 20))"
    by (simp_all add: not_positive_number_def)
  have 1: "\<exists>s' new.
      put ?s (JStr ''k'') (JStr ''v2'') JUndefined JUndefined = Inr (JStr ''v2'', s') \<and>
      map_of (cache s') ''k'' = Some new \<and> rec_value new = JStr ''v2'' \<and>
      rec_expirationTimeout new = Some 0 \<and> rec_duration new = JNum (Fin 1000) \<and>
      map_of (timers s') 0 =
        Some \<lparr>t_cb = ExpiryCb (JStr ''k''), t_delay = JNum (Fin 1000), t_since = 0,
              t_repeat = False\<rparr> \<and>
      rec_refreshInterval new = Some 1 \<and>
      map_of (timers s') 1 =
        Some \<lparr>t_cb = RefreshCb (JStr ''k''), t_delay = JNum (Fin 10), t_since = 0,
              t_repeat = True\<rparr>"
    using put_existing_key [OF r c v(1) v(1), of "JStr ''v2''"] by (simp add: t)
  have 2: "\<exists>s' new.
      put ?s (JStr ''k'') (JStr ''v2'') (JNum (Fin 500)) JUndefined = Inr (JStr ''v2'', s') \<and>
      map_of (cache s') ''k'' = Some new \<and> rec_value new = JStr ''v2'' \<and>
      map_of (timers s') 0 = None \<and>
      rec_expirationTimeout new = Some 2 \<and> rec_duration new = JNum (Fin 500) \<and>
      map_of (timers s') 2 =
        Some \<lparr>t_cb = ExpiryCb (JStr ''k''), t_delay = JNum (Fin 500), t_since = 999,
              t_repeat = False\<rparr> \<and>
      rec_refreshInterval new = Some 1 \<and>
      map_of (timers s') 1 =
        Some \<lparr>t_cb = RefreshCb (JStr ''k''), t_delay = JNum (Fin 10), t_since = 0,
              t_repeat = True\<rparr>"
    using put_existing_key [OF r c v(2) v(1), of "JStr ''v2''"] by (simp add: t)
  have 3: "\<exists>s' new.
      put ?s (JStr ''k'') (JStr ''v2'') JUndefined (JNum (Fin 20)) = Inr (JStr ''v2'', s') \<and>
      map_of (cache s') ''k'' = Some new \<and> rec_value new = JStr ''v2'' \<and>
      map_of (timers s') 1 = None \<and>
      rec_refreshInterval new = Some 2 \<and>
      map_of (timers s') 2 =
        Some \<lparr>t_cb = RefreshCb (JStr ''k''), t_delay = JNum (Fin 20), t_since = 999,
              t_repeat = True\<rparr> \<and>
      rec_expirationTimeout new = Some 0 \<and> rec_duration new = JNum (Fin 1000) \<and>
      map_of (timers s') 0 =
        Some \<lparr>t_cb = ExpiryCb (JStr ''k''), t_delay = JNum (Fin 1000), t_since = 0,
              t_repeat = False\<rparr>"
    using put_existing_key [OF r c v(1) v(3), of "JStr ''v2''"] by (auto simp: t)
  from r 1 2 3 show ?thesis by blast
qed

text \<open>
  C2. In every state reached from a new cache by method calls, clock advances and timer
  firings: no key has two entries; at most one pending timer carries the expiry callback
  of a key, and at most one carries its refresh callback; and every further operation
  leads to such a state again. When a pending timer with an expiry callback fires, the
  callback does not throw, the key's entry exists and is removed, exactly one expiry event
  is appended, carrying the key and the value the entry holds at that moment, and the
  handle is never pending again, whatever happens afterwards.
\<close>

theorem one_entry_one_timer:
  assumes re: "reachable s"
  shows "distinct (map fst (cache s)) \<and>
         length (expiry_timers s k) \<le> 1 \<and> length (refresh_timers s k) \<le> 1 \<and>
         reachable (apply_op s op) \<and>
         (\<forall>t key. map_of (timers s) i = Some t \<and> t_cb t = ExpiryCb key \<longrightarrow>
            (\<exists>r. map_of (cache s) (to_key key) = Some r \<and>
                 fire s i = Inr (apply_op s (Fire i)) \<and>
                 map_of (cache (apply_op s (Fire i))) (to_key key) = None \<and>
                 emitted (apply_op s (Fire i)) =
                   emitted s @ [\<lparr>eventName = ''expiry'', ev_key = key, ev_value = rec_value r\<rparr>] \<and>
                 (\<forall>ops. map_of (timers (run (apply_op s (Fire i)) ops)) i = None)))"
proof -
  from re have i: "cache_inv s" by (rule reachable_inv)
  then have dc: "distinct (map fst (cache s))" by (simp add: inv_iff)
  have fire: "\<exists>r. map_of (cache s) (to_key key) = Some r \<and>
                 fire s i = Inr (apply_op s (Fire i)) \<and>
                 map_of (cache (apply_op s (Fire i))) (to_key key) = None \<and>
                 emitted (apply_op s (Fire i)) =
                   emitted s @ [\<lparr>eventName = ''expiry'', ev_key = key, ev_value = rec_value r\<rparr>] \<and>
                 (\<forall>ops. map_of (timers (run (apply_op s (Fire i)) ops)) i = None)"
    if t: "map_of (timers s) i = Some t" and cb: "t_cb t = ExpiryCb key" for t key
  proof -
    from fire_expiry [OF i t cb] obtain r where
      r: "map_of (cache s) (to_key key) = Some r" "rec_expirationTimeout r = Some i"
      and f: "fire s i = Inr ((snd (del s key))
             \<lparr>emitted := emitted s @ [\<lparr>eventName = ''expiry'', ev_key = key,
                                       ev_value = rec_value r\<rparr>]\<rparr>)"
      by blast
    let ?s' = "(snd (del s key))
             \<lparr>emitted := emitted s @ [\<lparr>eventName = ''expiry'', ev_key = key,
                                       ev_value = rec_value r\<rparr>]\<rparr>"
    from f have s': "apply_op s (Fire i) = ?s'"
      by simp
    have lt: "i < nextTimerId s"
      using i t by (auto simp: inv_iff dest: minv_lt)
    have gone: "i \<notin> fst ` set (timers ?s')"
      using r by (cases "rec_refreshInterval r")
        (auto simp: del_def Let_def clearTimeout_def clearInterval_def AList.delete_eq)
    have "map_of (timers (run ?s' ops)) i = None" for ops
      using dead_run [of i ?s' ops] lt gone
      by (simp add: map_of_eq_None_iff)
    moreover have "map_of (cache ?s') (to_key key) = None"
      by (simp add: del_frame delete_conv')
    ultimately show ?thesis using r f unfolding s' by auto
  qed
  show ?thesis
    using dc expiry_timers_le_one [OF i] refresh_timers_le_one [OF i]
      reachable_apply_op [OF re] fire by blast
qed

theorem one_entry_one_timer_witness:
  "reachable (run init [Put (JStr ''k'') (JStr ''v1'') (JNum (Fin 1000)) JUndefined,
                        Advance 999, Put (JStr ''k'') (JStr ''v2'') JUndefined JUndefined,
                        Advance 1]) \<and>
   map_of (timers (run init [Put (JStr ''k'') (JStr ''v1'') (JNum (Fin 1000)) JUndefined,
                        Advance 999, Put (JStr ''k'') (JStr ''v2'') JUndefined JUndefined,
                        Advance 1])) 0 =
     Some \<lparr>t_cb = ExpiryCb (JStr ''k''), t_delay = JNum (Fin 1000), t_since = 0,
           t_repeat = False\<rparr> \<and>
   emitted (apply_op (run init [Put (JStr ''k'') (JStr ''v1'') (JNum (Fin 1000)) JUndefined,
                        Advance 999, Put (JStr ''k'') (JStr ''v2'') JUndefined JUndefined,
                        Advance 1]) (Fire 0)) =
     [\<lparr>eventName = ''expiry'', ev_key = JStr ''k'', ev_value = JStr ''v2''\<rparr>] \<and>
   map_of (cache (apply_op (run init [Put (JStr ''k'') (JStr ''v1'') (JNum (Fin 1000)) JUndefined,
                        Advance 999, Put (JStr ''k'') (JStr ''v2'') JUndefined JUndefined,
                        Advance 1]) (Fire 0))) ''k'' = None \<and>
   map_of (timers (run (apply_op (run init [Put (JStr ''k'') (JStr ''v1'') (JNum (Fin 1000)) JUndefined,
                        Advance 999, Put (JStr ''k'') (JStr ''v2'') JUndefined JUndefined,
                        Advance 1]) (Fire 0)) [Advance 1000, Fire 0])) 0 = None"
proof -
  let ?s = "run init [Put (JStr ''k'') (JStr ''v1'') (JNum (Fin 1000)) JUndefined,
                        Advance 999, Put (JStr ''k'') (JStr ''v2'') JUndefined JUndefined,
                        Advance 1]"
  have r: "reachable ?s" by (rule reachable_run)
  have t: "map_of (timers ?s) 0 =
     Some \<lparr>t_cb = ExpiryCb (JStr ''k''), t_delay = JNum (Fin 1000), t_since = 0,
           t_repeat = False\<rparr>"
    by (simp add: eval_defs)
  have c: "map_of (cache ?s) ''k'' =
             Some \<lparr>rec_value = JStr ''v2'', rec_duration = JNum (Fin 1000),
                   rec_expirationTimeout = Some 0, rec_refreshInterval = None\<rparr>"
    by (simp add: eval_defs)
  have e: "emitted ?s = []" by (simp add: eval_defs)
  from one_entry_one_timer [OF r, of "''k''" "Fire 0" 0] r t c e show ?thesis
    by auto
qed

text \<open>
  C3. In every reachable state: after \<^verbatim>\<open>del\<close> the key has no entry; after \<^verbatim>\<open>clear\<close> the
  cache is empty, \<^verbatim>\<open>size()\<close> is 0, \<^verbatim>\<open>keys()\<close> is empty and no timer at all is pending;
  after the firing of a key's expiration timer the key has no entry. And whenever a key has
  no entry, then along every continuation that contains no \<^verbatim>\<open>put\<close> for that key (method
  calls, clock advances and firings of any handle, in any order) the key stays absent, no
  event for the key is added to the log, and no expiry or refresh timer for the key is
  pending.
\<close>

theorem no_event_after_removal:
  assumes re: "reachable s"
  shows "map_of (cache (apply_op s (Del key))) (to_key key) = None \<and>
         cache (apply_op s Clear) = [] \<and> size_of (apply_op s Clear) = 0 \<and>
         keys (apply_op s Clear) = [] \<and> timers (apply_op s Clear) = [] \<and>
         (\<forall>t. map_of (timers s) i = Some t \<and> t_cb t = ExpiryCb key \<longrightarrow>
              map_of (cache (apply_op s (Fire i))) (to_key key) = None) \<and>
         (map_of (cache s) k = None \<and> list_all (\<lambda>op. \<not> puts_key k op) ops \<longrightarrow>
            map_of (cache (run s ops)) k = None \<and>
            events_for k (emitted (run s ops)) = events_for k (emitted s) \<and>
            expiry_timers (run s ops) k = [] \<and> refresh_timers (run s ops) k = [])"
proof -
  from re have i: "cache_inv s" by (rule reachable_inv)
  have A: "map_of (cache (apply_op s (Del key))) (to_key key) = None"
    by (simp add: del_frame delete_conv')
  have B: "cache (apply_op s Clear) = [] \<and> size_of (apply_op s Clear) = 0 \<and>
         keys (apply_op s Clear) = [] \<and> timers (apply_op s Clear) = []"
    using timers_clear [OF i] by (simp add: size_of_def keys_def)
  have C: "map_of (cache (apply_op s (Fire i))) (to_key key) = None"
    if "map_of (timers s) i = Some t" "t_cb t = ExpiryCb key" for t
    using fire_expiry [OF i that] by (auto simp: del_frame delete_conv')
  have D: "map_of (cache (run s ops)) k = None \<and>
            events_for k (emitted (run s ops)) = events_for k (emitted s) \<and>
            expiry_timers (run s ops) k = [] \<and> refresh_timers (run s ops) k = []"
    if a: "map_of (cache s) k = None" and np: "list_all (\<lambda>op. \<not> puts_key k op) ops"
  proof -
    from absent_run [OF i a np] have
      1: "map_of (cache (run s ops)) k = None"
      and 2: "events_for k (emitted (run s ops)) = events_for k (emitted s)"
      by simp_all
    from absent_no_timers [OF inv_run [OF i] 1] 1 2 show ?thesis by simp
  qed
  from A B C D show ?thesis by blast
qed

theorem no_event_after_removal_witness:
  "reachable (run init [Put (JStr ''k'') (JStr ''v'') (JNum (Fin 1000)) (JNum (Fin 10)),
                        Del (JStr ''k'')]) \<and>
   map_of (cache (run init [Put (JStr ''k'') (JStr ''v'') (JNum (Fin 1000)) (JNum (Fin 10)),
                            Del (JStr ''k'')])) ''k'' = None \<and>
   list_all (\<lambda>op. \<not> puts_key ''k'' op) [Advance 1000, Fire 1, Fire 0, Get (JStr ''k'')] \<and>
   events_for ''k''
     (emitted (run (run init [Put (JStr ''k'') (JStr ''v'') (JNum (Fin 1000)) (JNum (Fin 10)),
                              Del (JStr ''k'')])
                [Advance 1000, Fire 1, Fire 0, Get (JStr ''k'')])) = [] \<and>
   reachable (run init [Put (JStr ''k'') (JStr ''v'') (JNum (Fin 1000)) (JNum (Fin 10))]) \<and>
   map_of (timers (run init [Put (JStr ''k'') (JStr ''v'') (JNum (Fin 1000)) (JNum (Fin 10))])) 0
     = Some \<lparr>t_cb = ExpiryCb (JStr ''k''), t_delay = JNum (Fin 1000), t_since = 0,
             t_repeat = False\<rparr> \<and>
   map_of (cache (apply_op
      (run init [Put (JStr ''k'') (JStr ''v'') (JNum (Fin 1000)) (JNum (Fin 10))]) (Fire 0)))
      ''k'' = None"
proof -
  let ?s0 = "run init [Put (JStr ''k'') (JStr ''v'') (JNum (Fin 1000)) (JNum (Fin 10))]"
  let ?s1 = "run init [Put (JStr ''k'') (JStr ''v'') (JNum (Fin 1000)) (JNum (Fin 10)),
                       Del (JStr ''k'')]"
  have r0: "reachable ?s0" and r1: "reachable ?s1" by (rule reachable_run)+
  have c1: "map_of (cache ?s1) ''k'' = None" by (simp add: eval_defs)
  have e1: "emitted ?s1 = []" by (simp add: eval_defs)
  have np: "list_all (\<lambda>op. \<not> puts_key ''k'' op) [Advance 1000, Fire 1, Fire 0, Get (JStr ''k'')]"
    by (simp add: puts_key_def)
  have t0: "map_of (timers ?s0) 0 =
      Some \<lparr>t_cb = ExpiryCb (JStr ''k''), t_delay = JNum (Fin 1000), t_since = 0,
             t_repeat = False\<rparr>"
    by (simp add: eval_defs)
  from no_event_after_removal [OF r1, of "JStr ''k''" 0 "''k''"
         "[Advance 1000, Fire 1, Fire 0, Get (JStr ''k'')]"]
       no_event_after_removal [OF r0, of "JStr ''k''" 0 "''k''" "[]"]
       r0 r1 c1 e1 np t0
  show ?thesis by (simp add: events_for_def)
qed

text \<open>
  A duration of \<^verbatim>\<open>Infinity\<close> is supplied and is not a finite positive number, yet
  \<^verbatim>\<open>put\<close> returns normally, stores the entry and schedules the timeout.
\<close>

theorem put_infinite_duration_counterexample:
  "JNum PosInf \<noteq> JUndefined \<and> \<not> finite_positive_number (JNum PosInf) \<and>
   put init (JStr ''k'') (JStr ''v'') (JNum PosInf) JUndefined =
     Inr (JStr ''v'',
          \<lparr>cache = [(''k'', \<lparr>rec_value = JStr ''v'', rec_duration = JNum PosInf,
                              rec_expirationTimeout = Some 0, rec_refreshInterval = None\<rparr>)],
           resetOnAccess = False,
           timers = [(0, \<lparr>t_cb = ExpiryCb (JStr ''k''), t_delay = JNum PosInf, t_since = 0,
                           t_repeat = False\<rparr>)],
           nextTimerId = 1, now = 0, emitted = []\<rparr>)"
  by (simp add: finite_positive_number_def eval_defs)

text \<open>
  C4, as the code has it. The claim asks for an error whenever a supplied duration or refresh
  interval is not a finite positive number; the counterexample above shows
  that the code accepts \<^verbatim>\<open>Infinity\<close>, which is a number, is not NaN and is not \<^verbatim>\<open><= 0\<close>.
  What holds: \<^verbatim>\<open>put\<close> throws, with the state left as it was, exactly when the duration is
  supplied and is neither a finite positive number nor positive infinity, or the refresh
  interval is supplied and is neither; in every other case it stores the value in the
  key's entry and returns it.
\<close>

theorem put_validation:
  "((d \<noteq> JUndefined \<and> \<not> finite_positive_number d \<and> d \<noteq> JNum PosInf) \<or>
    (r \<noteq> JUndefined \<and> \<not> finite_positive_number r \<and> r \<noteq> JNum PosInf) \<longrightarrow>
      (\<exists>msg. put s key v d r = Inl (Error msg)) \<and> apply_op s (Put key v d r) = s) \<and>
   (\<not> (d \<noteq> JUndefined \<and> \<not> finite_positive_number d \<and> d \<noteq> JNum PosInf) \<and>
    \<not> (r \<noteq> JUndefined \<and> \<not> finite_positive_number r \<and> r \<noteq> JNum PosInf) \<longrightarrow>
      (\<exists>s' new. put s key v d r = Inr (v, s') \<and>
         map_of (cache s') (to_key key) = Some new \<and> rec_value new = v))"
  unfolding not_positive_number_iff [symmetric]
  using put_throws [of d r s key v] put_stores [of d r s key v] by blast

theorem put_validation_witness:
  "(\<exists>msg. put init (JStr ''k'') (JStr ''v'') (JNum (Fin 0)) JUndefined = Inl (Error msg)) \<and>
   apply_op init (Put (JStr ''k'') (JStr ''v'') (JNum (Fin 0)) JUndefined) = init \<and>
   (\<exists>s' new. put init (JStr ''k'') (JStr ''v'') (JNum (Fin 5)) (JNum PosInf) =
       Inr (JStr ''v'', s') \<and>
       map_of (cache s') ''k'' = Some new \<and> rec_value new = JStr ''v'')"
  using put_validation [of "JNum (Fin 0)" JUndefined init "JStr ''k''" "JStr ''v''"]
    put_validation [of "JNum (Fin 5)" "JNum PosInf" init "JStr ''k''" "JStr ''v''"]
  by (simp add: finite_positive_number_def)

text \<open>
  A key holding \<^verbatim>\<open>null\<close> is present, and \<^verbatim>\<open>get\<close> returns for it the same result as for
  a key that is not in the cache.
\<close>

theorem get_null_value_counterexample:
  "map_of (cache init) ''k'' = None \<and>
   map_of (cache (apply_op init (Put (JStr ''k'') JNull JUndefined JUndefined))) ''k''
     = Some \<lparr>rec_value = JNull, rec_duration = JUndefined,
             rec_expirationTimeout = None, rec_refreshInterval = None\<rparr> \<and>
   fst (get (apply_op init (Put (JStr ''k'') JNull JUndefined JUndefined)) (JStr ''k''))
     = fst (get init (JStr ''k''))"
  by (simp add: eval_defs)

text \<open>
  C5, as the code has it. The claim says that the value read back can always be told from
  the absent-marker; the counterexample above shows a present key holding
  \<^verbatim>\<open>null\<close>, for which \<^verbatim>\<open>get\<close> returns what it returns for a missing key. What holds:
  \<^verbatim>\<open>get\<close> on an absent key returns \<^verbatim>\<open>null\<close> and changes nothing (it cannot throw); a
  \<^verbatim>\<open>put\<close> with valid arguments followed by \<^verbatim>\<open>get\<close> of the same key returns exactly the
  value written, whatever the value; and that result is the absent-marker \<^verbatim>\<open>null\<close> if and
  only if the value written is \<^verbatim>\<open>null\<close>.
\<close>

theorem put_get_roundtrip:
  "(map_of (cache s) (to_key key) = None \<longrightarrow> get s key = (JNull, s)) \<and>
   (\<not> not_positive_number d \<and> \<not> not_positive_number r \<longrightarrow>
      (\<exists>s'. put s key v d r = Inr (v, s') \<and> fst (get s' key) = v \<and>
            (fst (get s' key) = JNull \<longleftrightarrow> v = JNull)))"
proof -
  have "\<exists>s'. put s key v d r = Inr (v, s') \<and> fst (get s' key) = v \<and>
            (fst (get s' key) = JNull \<longleftrightarrow> v = JNull)"
    if "\<not> not_positive_number d" "\<not> not_positive_number r"
  proof -
    from put_total [OF that] obtain s' where p: "put s key v d r = Inr (v, s')" by blast
    from get_after_put [OF p] p show ?thesis by auto
  qed
  then show ?thesis by (auto simp: get_def)
qed

theorem put_get_roundtrip_witness:
  "get init (JStr ''miss'') = (JNull, init) \<and>
   (\<exists>s'. put init (JStr ''k'') (JBool False) JUndefined JUndefined = Inr (JBool False, s') \<and>
        fst (get s' (JStr ''k'')) = JBool False \<and> fst (get s' (JStr ''k'')) \<noteq> JNull)"
  using put_get_roundtrip [of init "JStr ''miss''" JUndefined JUndefined "JStr ''k''"]
    put_get_roundtrip [of init "JStr ''k''" JUndefined JUndefined "JBool False"]
  by (simp add: init_def not_positive_number_def)

text \<open>
  C6. In a reachable state, \<^verbatim>\<open>get\<close> of a present key returns the entry's value. If the
  reset-on-access flag is set and the entry has a duration, the entry's expiration handle
  was pending with that duration as its delay and is no longer pending afterwards; the
  entry owns a fresh timeout with the expiry callback, the same full duration as delay,
  scheduled at the clock reading of the read; every other pending timer, and in particular
  the entry's refresh timer, is exactly as before. If the entry has no duration, or the
  flag is off, the read leaves the whole state, and so every timer, unchanged.
\<close>

theorem get_present:
  assumes re: "reachable s" and c: "map_of (cache s) (to_key key) = Some r"
  shows "fst (get s key) = rec_value r \<and>
   (resetOnAccess s \<and> rec_duration r \<noteq> JUndefined \<longrightarrow>
      (\<exists>h t. rec_expirationTimeout r = Some h \<and> map_of (timers s) h = Some t \<and>
             t_delay t = rec_duration r \<and> map_of (timers (snd (get s key))) h = None) \<and>
      map_of (cache (snd (get s key))) (to_key key) =
        Some (r\<lparr>rec_expirationTimeout := Some (nextTimerId s)\<rparr>) \<and>
      map_of (timers (snd (get s key))) (nextTimerId s) =
        Some \<lparr>t_cb = ExpiryCb key, t_delay = rec_duration r, t_since = now s,
              t_repeat = False\<rparr> \<and>
      (\<forall>j. rec_expirationTimeout r \<noteq> Some j \<and> j \<noteq> nextTimerId s \<longrightarrow>
           map_of (timers (snd (get s key))) j = map_of (timers s) j) \<and>
      (\<forall>j. rec_refreshInterval r = Some j \<longrightarrow>
           map_of (timers (snd (get s key))) j = map_of (timers s) j)) \<and>
   (rec_duration r = JUndefined \<longrightarrow> snd (get s key) = s) \<and>
   (\<not> resetOnAccess s \<longrightarrow> snd (get s key) = s)"
proof -
  from re have i: "cache_inv s" by (rule reachable_inv)
  then have m: "minv (map_of (cache s)) (map_of (timers s)) (nextTimerId s)"
    by (simp add: inv_iff)
  have fr: "map_of (timers s) (nextTimerId s) = None"
    using inv_fresh [OF i, of "nextTimerId s"] by (simp add: map_of_eq_None_iff)
  note H = inv_handles [OF i c]
  have v: "fst (get s key) = rec_value r"
    using c by (simp add: get_def Let_def setTimeout_def split: prod.splits)
  have n: "snd (get s key) = s" if "rec_duration r = JUndefined \<or> \<not> resetOnAccess s"
    using c that by (auto simp: get_def)
  have y: "(\<exists>h t. rec_expirationTimeout r = Some h \<and> map_of (timers s) h = Some t \<and>
             t_delay t = rec_duration r \<and> map_of (timers (snd (get s key))) h = None) \<and>
      map_of (cache (snd (get s key))) (to_key key) =
        Some (r\<lparr>rec_expirationTimeout := Some (nextTimerId s)\<rparr>) \<and>
      map_of (timers (snd (get s key))) (nextTimerId s) =
        Some \<lparr>t_cb = ExpiryCb key, t_delay = rec_duration r, t_since = now s,
              t_repeat = False\<rparr> \<and>
      (\<forall>j. rec_expirationTimeout r \<noteq> Some j \<and> j \<noteq> nextTimerId s \<longrightarrow>
           map_of (timers (snd (get s key))) j = map_of (timers s) j) \<and>
      (\<forall>j. rec_refreshInterval r = Some j \<longrightarrow>
           map_of (timers (snd (get s key))) j = map_of (timers s) j)"
    if ro: "resetOnAccess s" and d: "rec_duration r \<noteq> JUndefined"
  proof -
    from d minv_durC [OF m c] obtain h where h: "rec_expirationTimeout r = Some h"
      by (cases "rec_expirationTimeout r") auto
    from minv_expC [OF m c h] obtain t where
      t: "map_of (timers s) h = Some t" "t_delay t = rec_duration r" by blast
    from H h have hn: "h < nextTimerId s" "rec_refreshInterval r \<noteq> Some h"
      and rn: "\<And>j. rec_refreshInterval r = Some j \<Longrightarrow> j < nextTimerId s"
      by auto
    show ?thesis
      using c ro d h t hn rn fr
      by (auto simp: get_def Let_def prims update_conv' delete_conv' map_add_def
            split: option.splits)
  qed
  from v n y show ?thesis by blast
qed

theorem get_present_witness:
  "(reachable (run init [ResetExpiryOnAccess JUndefined,
                        Put (JStr ''k'') (JStr ''v'') (JNum (Fin 1000)) (JNum (Fin 10)),
                        Advance 500]) \<and>
   fst (get (run init [ResetExpiryOnAccess JUndefined,
                        Put (JStr ''k'') (JStr ''v'') (JNum (Fin 1000)) (JNum (Fin 10)),
                        Advance 500]) (JStr ''k'')) = JStr ''v'' \<and>
   map_of (timers (snd (get (run init [ResetExpiryOnAccess JUndefined,
                        Put (JStr ''k'') (JStr ''v'') (JNum (Fin 1000)) (JNum (Fin 10)),
                        Advance 500]) (JStr ''k'')))) 0 = None \<and>
   map_of (timers (snd (get (run init [ResetExpiryOnAccess JUndefined,
                        Put (JStr ''k'') (JStr ''v'') (JNum (Fin 1000)) (JNum (Fin 10)),
                        Advance 500]) (JStr ''k'')))) 2 =
     Some \<lparr>t_cb = ExpiryCb (JStr ''k''), t_delay = JNum (Fin 1000), t_since = 500,
           t_repeat = False\<rparr> \<and>
   map_of (timers (snd (get (run init [ResetExpiryOnAccess JUndefined,
                        Put (JStr ''k'') (JStr ''v'') (JNum (Fin 1000)) (JNum (Fin 10)),
                        Advance 500]) (JStr ''k'')))) (Suc 0) =
     Some \<lparr>t_cb = RefreshCb (JStr ''k''), t_delay = JNum (Fin 10), t_since = 0,
           t_repeat = True\<rparr>) \<and>
   (reachable (run init [Put (JStr ''k'') (JStr ''v'') (JNum (Fin 1000)) JUndefined,
                         Advance 500]) \<and>
    \<not> resetOnAccess (run init [Put (JStr ''k'') (JStr ''v'') (JNum (Fin 1000)) JUndefined,
                         Advance 500]) \<and>
    get (run init [Put (JStr ''k'') (JStr ''v'') (JNum (Fin 1000)) JUndefined,
                         Advance 500]) (JStr ''k'') =
      (JStr ''v'', run init [Put (JStr ''k'') (JStr ''v'') (JNum (Fin 1000)) JUndefined,
                         Advance 500]))"
proof -
  have a:
    "reachable (run init [ResetExpiryOnAccess JUndefined,
                          Put (JStr ''k'') (JStr ''v'') (JNum (Fin 1000)) (JNum (Fin 10)),
                          Advance 500]) \<and>
     fst (get (run init [ResetExpiryOnAccess JUndefined,
                          Put (JStr ''k'') (JStr ''v'') (JNum (Fin 1000)) (JNum (Fin 10)),
                          Advance 500]) (JStr ''k'')) = JStr ''v'' \<and>
     map_of (timers (snd (get (run init [ResetExpiryOnAccess JUndefined,
                          Put (JStr ''k'') (JStr ''v'') (JNum (Fin 1000)) (JNum (Fin 10)),
                          Advance 500]) (JStr ''k'')))) 0 = None \<and>
     map_of (timers (snd (get (run init [ResetExpiryOnAccess JUndefined,
                          Put (JStr ''k'') (JStr ''v'') (JNum (Fin 1000)) (JNum (Fin 10)),
                          Advance 500]) (JStr ''k'')))) 2 =
       Some \<lparr>t_cb = ExpiryCb (JStr ''k''), t_delay = JNum (Fin 1000), t_since = 500,
             t_repeat = False\<rparr> \<and>
     map_of (timers (snd (get (run init [ResetExpiryOnAccess JUndefined,
                          Put (JStr ''k'') (JStr ''v'') (JNum (Fin 1000)) (JNum (Fin 10)),
                          Advance 500]) (JStr ''k'')))) (Suc 0) =
       Some \<lparr>t_cb = RefreshCb (JStr ''k''), t_delay = JNum (Fin 10), t_since = 0,
             t_repeat = True\<rparr>"
  proof -
    let ?s = "run init [ResetExpiryOnAccess JUndefined,
                          Put (JStr ''k'') (JStr ''v'') (JNum (Fin 1000)) (JNum (Fin 10)),
                          Advance 500]"
    have r: "reachable ?s" by (rule reachable_run)
    have c: "map_of (cache ?s) (to_key (JStr ''k'')) =
               Some \<lparr>rec_value = JStr ''v'', rec_duration = JNum (Fin 1000),
                     rec_expirationTimeout = Some 0, rec_refreshInterval = Some 1\<rparr>"
      by (simp add: eval_defs)
    have f: "resetOnAccess ?s" "nextTimerId ?s = 2" "now ?s = 500"
      "map_of (timers ?s) (Suc 0) = Some \<lparr>t_cb = RefreshCb (JStr ''k''), t_delay = JNum (Fin 10),
          t_since = 0, t_repeat = True\<rparr>"
      by (simp_all add: eval_defs)
    from get_present [OF r c] r f show ?thesis
      by auto
  qed
  have b:
    "reachable (run init [Put (JStr ''k'') (JStr ''v'') (JNum (Fin 1000)) JUndefined,
                          Advance 500]) \<and>
     \<not> resetOnAccess (run init [Put (JStr ''k'') (JStr ''v'') (JNum (Fin 1000)) JUndefined,
                          Advance 500]) \<and>
     get (run init [Put (JStr ''k'') (JStr ''v'') (JNum (Fin 1000)) JUndefined,
                          Advance 500]) (JStr ''k'') =
       (JStr ''v'', run init [Put (JStr ''k'') (JStr ''v'') (JNum (Fin 1000)) JUndefined,
                          Advance 500])"
  proof -
    let ?s = "run init [Put (JStr ''k'') (JStr ''v'') (JNum (Fin 1000)) JUndefined,
                          Advance 500]"
    have r: "reachable ?s" by (rule reachable_run)
    have c: "map_of (cache ?s) (to_key (JStr ''k'')) =
               Some \<lparr>rec_value = JStr ''v'', rec_duration = JNum (Fin 1000),
                     rec_expirationTimeout = Some 0, rec_refreshInterval = None\<rparr>"
      by (simp add: eval_defs)
    have f: "\<not> resetOnAccess ?s" by (simp add: eval_defs)
    from get_present [OF r c] r f show ?thesis
      by (simp add: prod_eq_iff)
  qed
  from a b show ?thesis by blast
qed

text \<open>
  C7. \<^verbatim>\<open>del\<close> of an absent key returns false and leaves the state as it was. \<^verbatim>\<open>del\<close> of
  a present key returns true, removes the entry, leaves neither the entry's expiration
  handle nor its refresh handle pending, and emits nothing; a second \<^verbatim>\<open>del\<close> returns
  false, and in a reachable state so does every later \<^verbatim>\<open>del\<close>, after any operations that
  do not put the key again.
\<close>

theorem del_result:
  "(map_of (cache s) (to_key key) = None \<longrightarrow> del s key = (False, s)) \<and>
   (\<forall>r. map_of (cache s) (to_key key) = Some r \<longrightarrow>
      fst (del s key) = True \<and>
      map_of (cache (snd (del s key))) (to_key key) = None \<and>
      (\<forall>h. rec_expirationTimeout r = Some h \<or> rec_refreshInterval r = Some h \<longrightarrow>
           map_of (timers (snd (del s key))) h = None) \<and>
      emitted (snd (del s key)) = emitted s \<and>
      fst (del (snd (del s key)) key) = False) \<and>
   (reachable s \<and> list_all (\<lambda>op. \<not> puts_key (to_key key) op) ops \<longrightarrow>
      fst (del (run (snd (del s key)) ops) key) = False)"
proof -
  have A: "del s key = (False, s)" if "map_of (cache s) (to_key key) = None"
    using that by (simp add: del_def)
  have gone: "map_of (cache (snd (del s key))) (to_key key) = None"
    by (simp add: del_frame delete_conv')
  have B: "fst (del s key) = True \<and>
      map_of (cache (snd (del s key))) (to_key key) = None \<and>
      (\<forall>h. rec_expirationTimeout r = Some h \<or> rec_refreshInterval r = Some h \<longrightarrow>
           map_of (timers (snd (del s key))) h = None) \<and>
      emitted (snd (del s key)) = emitted s \<and>
      fst (del (snd (del s key)) key) = False"
    if c: "map_of (cache s) (to_key key) = Some r" for r
  proof -
    have "fst (del s key) = True" using c by (simp add: del_def Let_def)
    moreover have "map_of (timers (snd (del s key))) h = None"
      if "rec_expirationTimeout r = Some h \<or> rec_refreshInterval r = Some h" for h
      using c that
      by (cases "rec_expirationTimeout r"; cases "rec_refreshInterval r")
         (auto simp: del_def Let_def clearTimeout_def clearInterval_def delete_conv')
    moreover have "fst (del (snd (del s key)) key) = False"
      using gone by (simp add: del_def)
    ultimately show ?thesis using gone by (simp add: del_frame)
  qed
  have C: "fst (del (run (snd (del s key)) ops) key) = False"
    if re: "reachable s" and np: "list_all (\<lambda>op. \<not> puts_key (to_key key) op) ops"
  proof -
    have i: "cache_inv (snd (del s key))"
      using inv_del [OF reachable_inv [OF re]] .
    from absent_run [OF i gone np] show ?thesis by (simp add: del_def)
  qed
  from A B C show ?thesis by blast
qed

theorem del_result_witness:
  "del init (JStr ''miss'') = (False, init) \<and>
   reachable (run init [Put (JStr ''k'') (JStr ''v'') (JNum (Fin 1000)) (JNum (Fin 10))]) \<and>
   fst (del (run init [Put (JStr ''k'') (JStr ''v'') (JNum (Fin 1000)) (JNum (Fin 10))])
          (JStr ''k'')) = True \<and>
   map_of (timers (snd (del (run init
       [Put (JStr ''k'') (JStr ''v'') (JNum (Fin 1000)) (JNum (Fin 10))]) (JStr ''k'')))) 0 = None \<and>
   map_of (timers (snd (del (run init
       [Put (JStr ''k'') (JStr ''v'') (JNum (Fin 1000)) (JNum (Fin 10))]) (JStr ''k'')))) 1 = None \<and>
   fst (del (snd (del (run init
       [Put (JStr ''k'') (JStr ''v'') (JNum (Fin 1000)) (JNum (Fin 10))]) (JStr ''k'')))
       (JStr ''k'')) = False \<and>
   fst (del (run (snd (del (run init
       [Put (JStr ''k'') (JStr ''v'') (JNum (Fin 1000)) (JNum (Fin 10))]) (JStr ''k'')))
       [Advance 1000, Fire 0, Get (JStr ''k'')]) (JStr ''k'')) = False"
proof -
  let ?s = "run init [Put (JStr ''k'') (JStr ''v'') (JNum (Fin 1000)) (JNum (Fin 10))]"
  have r: "reachable ?s" by (rule reachable_run)
  have c: "map_of (cache ?s) (to_key (JStr ''k'')) =
             Some \<lparr>rec_value = JStr ''v'', rec_duration = JNum (Fin 1000),
                   rec_expirationTimeout = Some 0, rec_refreshInterval = Some 1\<rparr>"
    by (simp add: eval_defs)
  have np: "list_all (\<lambda>op. \<not> puts_key (to_key (JStr ''k'')) op)
              [Advance 1000, Fire 0, Get (JStr ''k'')]"
    by (simp add: puts_key_def)
  have m: "map_of (cache init) (to_key (JStr ''miss'')) = None" by (simp add: init_def)
  from del_result [of ?s "JStr ''k''" "[Advance 1000, Fire 0, Get (JStr ''k'')]"]
       del_result [of init "JStr ''miss''" "[]"] r c np m
  show ?thesis by simp
qed

text \<open>
  The key \<^verbatim>\<open>'1'\<close> is put after the key \<^verbatim>\<open>'b'\<close> and is listed before it: a brand-new key
  is not appended to the order.
\<close>

theorem keys_insertion_order_counterexample:
  "keys (run init [Put (JStr ''b'') (JStr ''x'') JUndefined JUndefined]) = [''b''] \<and>
   keys (run init [Put (JStr ''b'') (JStr ''x'') JUndefined JUndefined,
                   Put (JStr ''1'') (JStr ''y'') JUndefined JUndefined]) = [''1'', ''b''] \<and>
   keys (run init [Put (JStr ''b'') (JStr ''x'') JUndefined JUndefined,
                   Put (JStr ''1'') (JStr ''y'') JUndefined JUndefined])
     \<noteq> keys (run init [Put (JStr ''b'') (JStr ''x'') JUndefined JUndefined]) @ [''1'']"
  by (simp add: eval_defs)

text \<open>
  C8, as the code has it. \<^verbatim>\<open>keys()\<close> is \<^verbatim>\<open>Object.keys\<close> of a plain object, so it is not the
  insertion order when a key is an array index. What holds: \<^verbatim>\<open>keys()\<close> lists the keys that
  are array indices first, in ascending numeric order, and the other keys after them; a
  \<^verbatim>\<open>put\<close> of a key that is already listed leaves the list as it is; a \<^verbatim>\<open>put\<close> of a new key
  that is not an array index appends it at the end; a \<^verbatim>\<open>put\<close> of a new key that is an
  array index adds it to the listed keys and leaves the order of the other keys as it is;
  \<^verbatim>\<open>get\<close> does not change the list; \<^verbatim>\<open>del\<close> and the firing of the key's expiration timer
  remove the key and keep the order of the rest; \<^verbatim>\<open>clear\<close> empties the list.
\<close>

theorem keys_order:
  "keys s = filter is_array_index (keys s) @ filter (\<lambda>k. \<not> is_array_index k) (keys s) \<and>
   sorted (map index_value (filter is_array_index (keys s))) \<and>
   (put s key v d r = Inr (v, s') \<longrightarrow>
      (to_key key \<in> set (keys s) \<longrightarrow> keys s' = keys s) \<and>
      (to_key key \<notin> set (keys s) \<and> \<not> is_array_index (to_key key) \<longrightarrow>
         keys s' = keys s @ [to_key key]) \<and>
      (to_key key \<notin> set (keys s) \<and> is_array_index (to_key key) \<longrightarrow>
         set (keys s') = insert (to_key key) (set (keys s)) \<and>
         filter (\<lambda>k. \<not> is_array_index k) (keys s') = filter (\<lambda>k. \<not> is_array_index k) (keys s))) \<and>
   keys (snd (get s key)) = keys s \<and>
   keys (snd (del s key)) = removeAll (to_key key) (keys s) \<and>
   keys (clear s) = [] \<and>
   (reachable s \<and> map_of (timers s) i = Some t \<and> t_cb t = ExpiryCb key \<longrightarrow>
      keys (apply_op s (Fire i)) = removeAll (to_key key) (keys s))"
proof -
  have A: "keys s = filter is_array_index (keys s) @ filter (\<lambda>k. \<not> is_array_index k) (keys s)"
    unfolding keys_def using object_keys_split [of "cache s"]
    by (simp add: object_keys_def)
  have B: "sorted (map index_value (filter is_array_index (keys s)))"
    unfolding keys_def using object_keys_split [of "cache s"] by simp
  have C: "(to_key key \<in> set (keys s) \<longrightarrow> keys s' = keys s) \<and>
      (to_key key \<notin> set (keys s) \<and> \<not> is_array_index (to_key key) \<longrightarrow>
         keys s' = keys s @ [to_key key]) \<and>
      (to_key key \<notin> set (keys s) \<and> is_array_index (to_key key) \<longrightarrow>
         set (keys s') = insert (to_key key) (set (keys s)) \<and>
         filter (\<lambda>k. \<not> is_array_index k) (keys s') = filter (\<lambda>k. \<not> is_array_index k) (keys s))"
    if p: "put s key v d r = Inr (v, s')"
  proof -
    note K = keys_after_put [OF p]
    have 1: "keys s' = keys s" if "to_key key \<in> set (keys s)"
      unfolding keys_def using K that by (auto intro: object_keys_same)
    have 2: "keys s' = keys s @ [to_key key]"
      if "to_key key \<notin> set (keys s)" "\<not> is_array_index (to_key key)"
      unfolding keys_def using K that by (auto intro: object_keys_snoc)
    have 3: "set (keys s') = insert (to_key key) (set (keys s)) \<and>
         filter (\<lambda>k. \<not> is_array_index k) (keys s') = filter (\<lambda>k. \<not> is_array_index k) (keys s)"
      if n: "to_key key \<notin> set (keys s)" and ix: "is_array_index (to_key key)"
    proof -
      from K n have m: "map fst (cache s') = map fst (cache s) @ [to_key key]" by simp
      then have "set (map fst (cache s')) = insert (to_key key) (set (map fst (cache s)))"
        by simp
      then have "set (keys s') = insert (to_key key) (set (keys s))"
        by (simp add: keys_def set_object_keys)
      moreover have "filter (\<lambda>k. \<not> is_array_index k) (keys s')
                     = filter (\<lambda>k. \<not> is_array_index k) (keys s)"
        unfolding keys_def using object_keys_split [of "cache s'"] object_keys_split [of "cache s"]
          m ix by simp
      ultimately show ?thesis by simp
    qed
    from 1 2 3 show ?thesis by blast
  qed
  have D: "keys (snd (get s key)) = keys s"
    unfolding keys_def by (rule object_keys_same) (simp add: get_frame)
  have E: "keys (snd (del s key)) = removeAll (to_key key) (keys s)"
    unfolding keys_def by (rule object_keys_removeAll) (simp add: del_frame delete_keys)
  have F: "keys (clear s) = []" by (simp add: keys_def)
  have G: "keys (apply_op s (Fire i)) = removeAll (to_key key) (keys s)"
    if "reachable s" "map_of (timers s) i = Some t" "t_cb t = ExpiryCb key"
  proof -
    from fire_expiry [OF reachable_inv [OF that(1)] that(2,3)] obtain r :: entry where
      "fire s i = Inr ((snd (del s key))
             \<lparr>emitted := emitted s @ [\<lparr>eventName = ''expiry'', ev_key = key,
                                       ev_value = rec_value r\<rparr>]\<rparr>)"
      by blast
    then have "keys (apply_op s (Fire i)) = keys (snd (del s key))"
      by (simp add: keys_def)
    with E show ?thesis by simp
  qed
  from A B C D E F G show ?thesis by blast
qed

theorem keys_order_witness:
  "put (run init [Put (JStr ''b'') (JStr ''x'') JUndefined JUndefined])
       (JStr ''a'') (JStr ''y'') JUndefined JUndefined
     = Inr (JStr ''y'',
        run init [Put (JStr ''b'') (JStr ''x'') JUndefined JUndefined,
                  Put (JStr ''a'') (JStr ''y'') JUndefined JUndefined]) \<and>
   keys (run init [Put (JStr ''b'') (JStr ''x'') JUndefined JUndefined,
                   Put (JStr ''a'') (JStr ''y'') JUndefined JUndefined]) = [''b'', ''a''] \<and>
   put (run init [Put (JStr ''b'') (JStr ''x'') JUndefined JUndefined,
                  Put (JStr ''a'') (JStr ''y'') JUndefined JUndefined])
       (JStr ''b'') (JStr ''z'') JUndefined JUndefined
     = Inr (JStr ''z'',
        run init [Put (JStr ''b'') (JStr ''x'') JUndefined JUndefined,
                  Put (JStr ''a'') (JStr ''y'') JUndefined JUndefined,
                  Put (JStr ''b'') (JStr ''z'') JUndefined JUndefined]) \<and>
   keys (run init [Put (JStr ''b'') (JStr ''x'') JUndefined JUndefined,
                   Put (JStr ''a'') (JStr ''y'') JUndefined JUndefined,
                   Put (JStr ''b'') (JStr ''z'') JUndefined JUndefined]) = [''b'', ''a''] \<and>
   put (run init [Put (JStr ''b'') (JStr ''x'') JUndefined JUndefined])
       (JStr ''7'') (JStr ''y'') JUndefined JUndefined
     = Inr (JStr ''y'',
        run init [Put (JStr ''b'') (JStr ''x'') JUndefined JUndefined,
                  Put (JStr ''7'') (JStr ''y'') JUndefined JUndefined]) \<and>
   set (keys (run init [Put (JStr ''b'') (JStr ''x'') JUndefined JUndefined,
                        Put (JStr ''7'') (JStr ''y'') JUndefined JUndefined])) = {''7'', ''b''} \<and>
   filter (\<lambda>k. \<not> is_array_index k)
     (keys (run init [Put (JStr ''b'') (JStr ''x'') JUndefined JUndefined,
                      Put (JStr ''7'') (JStr ''y'') JUndefined JUndefined])) = [''b''] \<and>
   reachable (run init [Put (JStr ''b'') (JStr ''x'') (JNum (Fin 5)) JUndefined,
                        Put (JStr ''a'') (JStr ''y'') JUndefined JUndefined]) \<and>
   keys (apply_op (run init [Put (JStr ''b'') (JStr ''x'') (JNum (Fin 5)) JUndefined,
                             Put (JStr ''a'') (JStr ''y'') JUndefined JUndefined]) (Fire 0))
     = [''a'']"
proof -
  let ?s = "run init [Put (JStr ''b'') (JStr ''x'') JUndefined JUndefined]"
  let ?s' = "run init [Put (JStr ''b'') (JStr ''x'') JUndefined JUndefined,
                  Put (JStr ''a'') (JStr ''y'') JUndefined JUndefined]"
  let ?s'' = "run init [Put (JStr ''b'') (JStr ''x'') JUndefined JUndefined,
                  Put (JStr ''a'') (JStr ''y'') JUndefined JUndefined,
                  Put (JStr ''b'') (JStr ''z'') JUndefined JUndefined]"
  let ?s7 = "run init [Put (JStr ''b'') (JStr ''x'') JUndefined JUndefined,
                  Put (JStr ''7'') (JStr ''y'') JUndefined JUndefined]"
  let ?u = "run init [Put (JStr ''b'') (JStr ''x'') (JNum (Fin 5)) JUndefined,
                        Put (JStr ''a'') (JStr ''y'') JUndefined JUndefined]"
  have p: "put ?s (JStr ''a'') (JStr ''y'') JUndefined JUndefined = Inr (JStr ''y'', ?s')"
    by (simp add: eval_defs)
  have k: "keys ?s = [''b'']" "\<not> is_array_index (to_key (JStr ''a''))"
    by (simp_all add: eval_defs)
  have 1: "keys ?s' = [''b'', ''a'']"
    using keys_order [of ?s "JStr ''a''" "JStr ''y''" JUndefined JUndefined ?s'] p k by simp
  have p2: "put ?s' (JStr ''b'') (JStr ''z'') JUndefined JUndefined = Inr (JStr ''z'', ?s'')"
    by (simp add: eval_defs)
  have 2: "keys ?s'' = [''b'', ''a'']"
    using keys_order [of ?s' "JStr ''b''" "JStr ''z''" JUndefined JUndefined ?s''] p2 1 by simp
  have p7: "put ?s (JStr ''7'') (JStr ''y'') JUndefined JUndefined = Inr (JStr ''y'', ?s7)"
    by (simp add: eval_defs)
  have k7: "is_array_index (to_key (JStr ''7''))"
    by (simp add: eval_defs)
  have 3: "set (keys ?s7) = {''7'', ''b''} \<and>
           filter (\<lambda>k. \<not> is_array_index k) (keys ?s7) = [''b'']"
    using keys_order [of ?s "JStr ''7''" "JStr ''y''" JUndefined JUndefined ?s7] p7 k k7
    by (simp add: is_array_index_def is_digit_def)
  have r: "reachable ?u" by (rule reachable_run)
  have t: "map_of (timers ?u) 0 = Some \<lparr>t_cb = ExpiryCb (JStr ''b''), t_delay = JNum (Fin 5),
             t_since = 0, t_repeat = False\<rparr>"
    "keys ?u = [''b'', ''a'']"
    by (simp_all add: eval_defs)
  have 4: "keys (apply_op ?u (Fire 0)) = [''a'']"
    using keys_order [of ?u "JStr ''b''" _ _ _ _ 0
       "\<lparr>t_cb = ExpiryCb (JStr ''b''), t_delay = JNum (Fin 5), t_since = 0, t_repeat = False\<rparr>"]
      r t by simp
  from p 1 p2 2 p7 3 r 4 show ?thesis by blast
qed

text \<open>
  C9. \<^verbatim>\<open>resetExpiryOnAccess(flag)\<close> stores a boolean argument in the flag; with the
  argument omitted it stores true; with any other defined argument it throws an error and
  the state stays as it was. A new cache has the flag false, and while the flag is false a
  read changes nothing in the state, so it extends no expiry.
\<close>

theorem resetExpiryOnAccess_flag:
  "resetExpiryOnAccess s (JBool b) = Inr (s\<lparr>resetOnAccess := b\<rparr>) \<and>
   resetExpiryOnAccess s JUndefined = Inr (s\<lparr>resetOnAccess := True\<rparr>) \<and>
   (x \<noteq> JUndefined \<and> typeof x \<noteq> TBoolean \<longrightarrow>
      resetExpiryOnAccess s x = Inl (Error ''Reset expiry on get flag must be a boolean'') \<and>
      apply_op s (ResetExpiryOnAccess x) = s) \<and>
   resetOnAccess init = False \<and>
   (\<not> resetOnAccess s \<longrightarrow> snd (get s key) = s)"
  by (auto simp: resetExpiryOnAccess_def init_def get_def split: option.splits)

theorem resetExpiryOnAccess_flag_witness:
  "resetExpiryOnAccess init (JBool True) = Inr (init\<lparr>resetOnAccess := True\<rparr>) \<and>
   resetExpiryOnAccess init JUndefined = Inr (init\<lparr>resetOnAccess := True\<rparr>) \<and>
   resetExpiryOnAccess init (JStr ''foo'') =
     Inl (Error ''Reset expiry on get flag must be a boolean'') \<and>
   apply_op init (ResetExpiryOnAccess (JStr ''foo'')) = init \<and>
   snd (get init (JStr ''key'')) = init"
  using resetExpiryOnAccess_flag [of init True "JStr ''foo''" "JStr ''key''"]
  by (simp add: init_def)



end
